theory Spec2Isabelle
  imports Complex_Main
begin

section \<open>Dense matrices as numpy has them\<close>

text \<open>
  A two-dimensional \<^verbatim>\<open>numpy\<close> array is a list of rows, a one-dimensional one a list.
  The entries are \<^verbatim>\<open>float64\<close> in the program; here they are real numbers, so every
  statement below is about the arithmetic the program approximates, not about rounding.
  The only float behaviour that is kept is division by zero: \<^verbatim>\<open>numpy\<close> does not raise
  there, it warns and carries on with \<^verbatim>\<open>inf\<close> or \<^verbatim>\<open>nan\<close>. No real number stands
  for those, so a division by zero ends the model with \<open>NonFinite\<close>.
\<close>

type_synonym vec = "real list"
type_synonym mat = "real list list"

datatype failure =
    UnboundLocalError  \<comment> \<open>a local variable read before any assignment\<close>
  | LinAlgError        \<comment> \<open>raised by \<^verbatim>\<open>scipy.linalg.eigh\<close>\<close>
  | NonFinite          \<comment> \<open>not an exception: a float division by zero took place\<close>

definition bind_f :: "failure + 'a \<Rightarrow> ('a \<Rightarrow> failure + 'b) \<Rightarrow> failure + 'b" where
  "bind_f m f = (case m of Inl e \<Rightarrow> Inl e | Inr a \<Rightarrow> f a)"

definition mat_of :: "nat \<Rightarrow> nat \<Rightarrow> (nat \<Rightarrow> nat \<Rightarrow> real) \<Rightarrow> mat" where
  "mat_of r c f = map (\<lambda>i. map (\<lambda>j. f i j) [0..<c]) [0..<r]"

definition is_mat :: "nat \<Rightarrow> nat \<Rightarrow> mat \<Rightarrow> bool" where
  "is_mat r c A \<longleftrightarrow> length A = r \<and> list_all (\<lambda>row. length row = c) A"

definition is_sym :: "nat \<Rightarrow> mat \<Rightarrow> bool" where
  "is_sym n A \<longleftrightarrow> is_mat n n A \<and> list_all (\<lambda>i. list_all (\<lambda>j. A ! i ! j = A ! j ! i) [0..<n]) [0..<n]"

definition ncols :: "mat \<Rightarrow> nat" where
  "ncols A = (case A of [] \<Rightarrow> 0 | row # _ \<Rightarrow> length row)"

definition madd :: "mat \<Rightarrow> mat \<Rightarrow> mat" where
  "madd A B = map2 (map2 (+)) A B"

definition msub :: "mat \<Rightarrow> mat \<Rightarrow> mat" where
  "msub A B = map2 (map2 (-)) A B"

definition mneg :: "mat \<Rightarrow> mat" where
  "mneg A = map (map uminus) A"

definition smul :: "real \<Rightarrow> mat \<Rightarrow> mat" where
  "smul c A = map (map (\<lambda>a. c * a)) A"

definition fdiv :: "real \<Rightarrow> real \<Rightarrow> failure + real" where
  "fdiv a b = (if b = 0 then Inl NonFinite else Inr (a / b))"

definition vdiv :: "vec \<Rightarrow> real \<Rightarrow> failure + vec" where
  "vdiv v b = (if b = 0 \<and> v \<noteq> [] then Inl NonFinite else Inr (map (\<lambda>a. a / b) v))"

definition mdiv :: "mat \<Rightarrow> real \<Rightarrow> failure + mat" where
  "mdiv A b = (if b = 0 \<and> concat A \<noteq> [] then Inl NonFinite else Inr (map (map (\<lambda>a. a / b)) A))"

definition np_identity :: "nat \<Rightarrow> mat" where
  "np_identity n = mat_of n n (\<lambda>i j. if i = j then 1 else 0)"

definition np_zeros :: "nat \<Rightarrow> nat \<Rightarrow> mat" where
  "np_zeros r c = replicate r (replicate c 0)"

definition np_sum_axis1 :: "mat \<Rightarrow> vec" where
  "np_sum_axis1 A = map sum_list A"

definition np_trace :: "mat \<Rightarrow> real" where
  "np_trace A = sum_list (map (\<lambda>i. A ! i ! i) [0..<min (length A) (ncols A)])"

definition np_repeat :: "vec \<Rightarrow> nat \<Rightarrow> vec" where
  "np_repeat u k = concat (map (replicate k) u)"

definition np_reshape :: "vec \<Rightarrow> nat \<Rightarrow> nat \<Rightarrow> mat" where
  "np_reshape xs r c = map (\<lambda>i. take c (drop (i * c) xs)) [0..<r]"

definition np_diag :: "vec \<Rightarrow> mat" where
  "np_diag d = mat_of (length d) (length d) (\<lambda>i j. if i = j then d ! i else 0)"

definition np_diagonal :: "mat \<Rightarrow> vec" where
  "np_diagonal A = map (\<lambda>i. A ! i ! i) [0..<min (length A) (ncols A)]"

definition np_T :: "mat \<Rightarrow> mat" where
  "np_T A = mat_of (ncols A) (length A) (\<lambda>i j. A ! j ! i)"

definition np_dot :: "mat \<Rightarrow> mat \<Rightarrow> mat" where
  "np_dot A B = mat_of (length A) (ncols B) (\<lambda>i j. \<Sum>k\<leftarrow>[0..<length B]. A ! i ! k * B ! k ! j)"

definition norm_fro :: "mat \<Rightarrow> real" where
  "norm_fro A = sqrt (\<Sum>a\<leftarrow>concat A. a\<^sup>2)"

section \<open>The three projections\<close>

definition operator_lstarllstarinv :: "vec \<Rightarrow> real \<Rightarrow> mat" where
  "operator_lstarllstarinv u v =
     madd (np_reshape (np_repeat u (length u)) (length u) (length u))
          (np_diag (np_repeat [v] (length u)))"

definition proj_lin_Hrows :: "mat \<Rightarrow> real \<Rightarrow> failure + mat" where
  "proj_lin_Hrows Y K =
     (let n_samples = int (length Y);
          x = map (\<lambda>s. s - 1) (np_sum_axis1 Y);
          y = np_trace Y - K
      in bind_f (fdiv (sum_list x - y * of_int n_samples) (of_int (n_samples\<^sup>2 - n_samples))) (\<lambda>a.
         bind_f (vdiv (map (\<lambda>xi. xi + a) x) (of_int n_samples)) (\<lambda>invx.
         bind_f (fdiv (y - sum_list x) (of_int (n_samples - 1))) (\<lambda>b.
         bind_f (fdiv (b + y) (of_int n_samples)) (\<lambda>invy.
         Inr (msub Y (operator_lstarllstarinv invx invy)))))))"

definition operator_lstarllstarinv_sym :: "vec \<Rightarrow> real \<Rightarrow> mat" where
  "operator_lstarllstarinv_sym u v =
     (let temp = operator_lstarllstarinv u v
      in msub (madd temp (np_T temp)) (np_diag (np_diagonal temp)))"

definition proj_lin_Hsymmetric :: "mat \<Rightarrow> real \<Rightarrow> failure + mat" where
  "proj_lin_Hsymmetric Y K =
     (let n_samples = int (length Y);
          x = map (\<lambda>s. s - 1) (np_sum_axis1 Y);
          y = np_trace Y - K
      in bind_f (fdiv (sum_list x + y) (of_int (2 * n_samples))) (\<lambda>a.
         bind_f (vdiv (map (\<lambda>xi. xi - a) x) (of_int (n_samples - 1))) (\<lambda>invx.
         bind_f (fdiv (y - a) (of_int (n_samples - 1))) (\<lambda>invy.
         Inr (msub Y (operator_lstarllstarinv_sym invx invy))))))"

definition proj_positive :: "mat \<Rightarrow> real \<Rightarrow> mat" where
  "proj_positive x thresh = map (map (\<lambda>a. if a < thresh then 0 else a)) x"

section \<open>Closed forms of the affine projections, norms and feasibility\<close>



definition hsym_a :: "nat \<Rightarrow> mat \<Rightarrow> real \<Rightarrow> real" where
  "hsym_a n Y K =
     ((\<Sum>i<n. (\<Sum>j<n. Y ! i ! j) - 1) + ((\<Sum>i<n. Y ! i ! i) - K)) / (2 * real n)"

definition hsym_invx :: "nat \<Rightarrow> mat \<Rightarrow> real \<Rightarrow> nat \<Rightarrow> real" where
  "hsym_invx n Y K i = (((\<Sum>j<n. Y ! i ! j) - 1) - hsym_a n Y K) / (real n - 1)"

definition hsym_invy :: "nat \<Rightarrow> mat \<Rightarrow> real \<Rightarrow> real" where
  "hsym_invy n Y K = (((\<Sum>i<n. Y ! i ! i) - K) - hsym_a n Y K) / (real n - 1)"

definition sumsq :: "nat \<Rightarrow> nat \<Rightarrow> mat \<Rightarrow> real" where
  "sumsq r c A = (\<Sum>i<r. \<Sum>j<c. (A ! i ! j)\<^sup>2)"




definition hsym_closed :: "nat \<Rightarrow> mat \<Rightarrow> real \<Rightarrow> mat" where
  "hsym_closed n Y K =
     mat_of n n (\<lambda>i j. Y ! i ! j -
        (if i = j then hsym_invx n Y K i + hsym_invy n Y K else hsym_invx n Y K i + hsym_invx n Y K j))"

section \<open>The projection onto the positive semi-definite cone\<close>

text \<open>
  \<^verbatim>\<open>scipy.linalg.eigh\<close> is not part of the repository, so the solver is a parameter of the
  model. \<open>eigvals_only la A\<close> stands for \<^verbatim>\<open>la.eigh(A, eigvals_only=True)\<close> and
  \<open>eigvals_range la A lo hi\<close> for \<^verbatim>\<open>la.eigh(A, eigvals=(lo, hi))\<close>, which returns the
  eigenvalues with indices \<open>lo..hi\<close> of the ascending spectrum and a matrix whose columns
  are the matching eigenvectors. Either call may raise.
\<close>

record eigh_impl =
  eigvals_only :: "mat \<Rightarrow> failure + vec"
  eigvals_range :: "mat \<Rightarrow> int \<Rightarrow> int \<Rightarrow> failure + vec \<times> mat"

definition spectral_sum :: "vec \<Rightarrow> mat \<Rightarrow> mat" where
  \<comment> \<open>\<^verbatim>\<open>v.dot(np.diag(eig_vals)).dot(v.T)\<close>\<close>
  "spectral_sum eig_vals v = np_dot (np_dot v (np_diag eig_vals)) (np_T v)"

definition psd_add_negative :: "eigh_impl \<Rightarrow> mat \<Rightarrow> int \<Rightarrow> failure + mat" where
  \<comment> \<open>the branch taken when the negative eigenvalues are the fewer ones\<close>
  "psd_add_negative la Y n_val_neg =
     (let n_samples = int (length Y)
      in bind_f (eigvals_range la (mneg Y) (n_samples - n_val_neg) (n_samples - 1))
           (\<lambda>(eig_vals, v). Inr (madd Y (spectral_sum eig_vals v))))"

definition psd_keep_positive :: "eigh_impl \<Rightarrow> mat \<Rightarrow> int \<Rightarrow> failure + mat" where
  \<comment> \<open>the other branch\<close>
  "psd_keep_positive la Y n_val_neg =
     (let n_samples = int (length Y)
      in bind_f (eigvals_range la Y n_val_neg (n_samples - 1))
           (\<lambda>(eig_vals, v). Inr (spectral_sum eig_vals v)))"

definition proj_Snp_imp :: "eigh_impl \<Rightarrow> mat \<Rightarrow> failure + mat" where
  "proj_Snp_imp la Y =
     (let n_samples = int (length Y)
      in bind_f (eigvals_only la Y) (\<lambda>eig_vals.
         let n_val_neg = int (length (filter (\<lambda>w. w < 0) eig_vals))
         in if n_val_neg = 0 then Inr Y
            else if n_val_neg = n_samples then Inr (np_zeros (nat n_samples) (nat n_samples))
            else if n_val_neg < n_samples - n_val_neg then psd_add_negative la Y n_val_neg
            else psd_keep_positive la Y n_val_neg))"

section \<open>The solver\<close>

record admm_state =
  st_X :: mat
  st_Y :: mat
  st_Z :: mat
  st_U :: mat
  st_V :: mat
  st_W :: mat
  st_Xbar :: mat
  st_res_dual :: "real option"    \<comment> \<open>\<open>None\<close>: the local variable is not bound yet\<close>
  st_res_primal :: "real option"

definition epsilon :: real where
  "epsilon = 1 / 10 ^ 8"

definition n_max :: int where
  "n_max = 3000"

definition is_primal_high :: "real \<Rightarrow> mat \<Rightarrow> mat \<Rightarrow> mat \<Rightarrow> bool" where
  "is_primal_high res_primal X Y Z \<longleftrightarrow>
     res_primal > epsilon * Max {norm_fro X, norm_fro Y, norm_fro Z}"

definition is_dual_high :: "real \<Rightarrow> mat \<Rightarrow> mat \<Rightarrow> bool" where
  "is_dual_high res_dual Y Z \<longleftrightarrow>
     res_dual > epsilon * (sqrt (real (length Y)) + norm_fro Y + norm_fro Z)"

definition mean3 :: "mat \<Rightarrow> mat \<Rightarrow> mat \<Rightarrow> mat" where
  \<comment> \<open>\<^verbatim>\<open>(X + Y + Z)/3\<close>; the divisor is the literal 3\<close>
  "mean3 X Y Z = map (map (\<lambda>a. a / 3)) (madd (madd X Y) Z)"

definition norm_stack :: "mat \<Rightarrow> mat \<Rightarrow> mat \<Rightarrow> real" where
  \<comment> \<open>\<^verbatim>\<open>np.linalg.norm((A, B, C))\<close>: the 2-norm of the flattened three-dimensional array\<close>
  "norm_stack A B C = norm_fro (A @ B @ C)"

definition admm_iteration :: "eigh_impl \<Rightarrow> mat \<Rightarrow> real \<Rightarrow> real \<Rightarrow> admm_state \<Rightarrow> failure + admm_state" where
  \<comment> \<open>the body of the loop, from \<^verbatim>\<open>oldXbar = Xbar\<close> to the two residuals\<close>
  "admm_iteration la relational_data K rho s =
     (let oldXbar = st_Xbar s
      in bind_f (mdiv relational_data rho) (\<lambda>scaled.
         bind_f (proj_lin_Hsymmetric (madd (msub (st_Xbar s) (st_U s)) scaled) K) (\<lambda>X.
         let Y = proj_positive (msub (st_Xbar s) (st_V s)) 0
         in bind_f (proj_Snp_imp la (msub (st_Xbar s) (st_W s))) (\<lambda>Z.
         let Xbar = mean3 X Y Z;
             U = msub (madd (st_U s) X) Xbar;
             V = msub (madd (st_V s) Y) Xbar;
             W = msub (madd (st_W s) Z) Xbar;
             res_dual = rho * norm_fro (msub Xbar oldXbar);
             res_primal = norm_stack (msub X Xbar) (msub Z Xbar) (msub Y Xbar)
         in Inr \<lparr>st_X = X, st_Y = Y, st_Z = Z, st_U = U, st_V = V, st_W = W, st_Xbar = Xbar,
                 st_res_dual = Some res_dual, st_res_primal = Some res_primal\<rparr>))))"

definition keep_going :: "admm_state \<Rightarrow> bool" where
  \<comment> \<open>the negation of the guard of \<^verbatim>\<open>break\<close>\<close>
  "keep_going s \<longleftrightarrow>
     (case (st_res_primal s, st_res_dual s) of
        (Some res_primal, Some res_dual) \<Rightarrow>
          is_primal_high res_primal (st_X s) (st_Y s) (st_Z s) \<or> is_dual_high res_dual (st_Y s) (st_Z s)
      | _ \<Rightarrow> False)"

function admm_loop ::
  "eigh_impl \<Rightarrow> mat \<Rightarrow> real \<Rightarrow> int \<Rightarrow> real \<Rightarrow> int \<Rightarrow> admm_state \<Rightarrow> failure + int \<times> admm_state" where
  "admm_loop la relational_data K n_iter_max rho n_iter s =
     (if n_iter < n_iter_max
      then (case admm_iteration la relational_data K rho s of
              Inl e \<Rightarrow> Inl e
            | Inr s' \<Rightarrow>
                if \<not> keep_going s' then Inr (n_iter + 1, s')
                else admm_loop la relational_data K n_iter_max rho (n_iter + 1) s')
      else Inr (n_iter, s))"
  by pat_completeness auto
termination
  by (relation "measure (\<lambda>(la, relational_data, K, n_iter_max, rho, n_iter, s). nat (n_iter_max - n_iter))") auto

definition admm_init :: "nat \<Rightarrow> admm_state" where
  "admm_init n_samples =
     \<lparr>st_X = np_identity n_samples, st_Y = np_identity n_samples, st_Z = np_identity n_samples,
      st_U = np_zeros n_samples n_samples, st_V = np_zeros n_samples n_samples,
      st_W = np_zeros n_samples n_samples,
      st_Xbar = mean3 (np_identity n_samples) (np_identity n_samples) (np_identity n_samples),
      st_res_dual = None, st_res_primal = None\<rparr>"

definition pecok_admm_run ::
  "eigh_impl \<Rightarrow> mat \<Rightarrow> real \<Rightarrow> int \<Rightarrow> real \<Rightarrow> failure + int \<times> admm_state" where
  \<comment> \<open>\<^verbatim>\<open>pecok_admm\<close> up to the end of the loop: the iteration count and the local variables\<close>
  "pecok_admm_run la relational_data K n_iter_max rho =
     (let n_samples = length relational_data
      in bind_f (mdiv relational_data (norm_fro relational_data)) (\<lambda>relational_data.
         admm_loop la relational_data K n_iter_max rho 0 (admm_init n_samples)))"

definition pecok_admm :: "eigh_impl \<Rightarrow> mat \<Rightarrow> real \<Rightarrow> int \<Rightarrow> real \<Rightarrow> failure + mat" where
  \<comment> \<open>the two \<^verbatim>\<open>print\<close> calls read \<^verbatim>\<open>res_primal\<close> and \<^verbatim>\<open>res_dual\<close>, then \<open>Z\<close> is returned\<close>
  "pecok_admm la relational_data K n_iter_max rho =
     bind_f (pecok_admm_run la relational_data K n_iter_max rho) (\<lambda>(n_iter, s).
       case (st_res_primal s, st_res_dual s) of
         (Some res_primal, Some res_dual) \<Rightarrow> Inr (st_Z s)
       | _ \<Rightarrow> Inl UnboundLocalError)"

definition pecok_admm_default :: "eigh_impl \<Rightarrow> mat \<Rightarrow> real \<Rightarrow> failure + mat" where
  \<comment> \<open>the call with the default arguments \<^verbatim>\<open>n_iter_max=n_max\<close> and \<^verbatim>\<open>rho=1.0\<close>\<close>
  "pecok_admm_default la relational_data K = pecok_admm la relational_data K n_max 1"

section \<open>What the eigenvalue solver is assumed to return\<close>

text \<open>
  An orthonormal eigensystem of the \<open>n \<times> n\<close> array \<open>a\<close>: column \<open>k\<close> of \<open>q\<close> is an
  eigenvector for \<open>w k\<close>, the columns are orthonormal and they span the space.
\<close>

definition eigsys :: "nat \<Rightarrow> (nat \<Rightarrow> nat \<Rightarrow> real) \<Rightarrow> (nat \<Rightarrow> real) \<Rightarrow> (nat \<Rightarrow> nat \<Rightarrow> real) \<Rightarrow> bool" where
  "eigsys n a w q \<longleftrightarrow>
     (\<forall>k<n. \<forall>i<n. (\<Sum>j<n. a i j * q j k) = w k * q i k) \<and>
     (\<forall>k<n. \<forall>l<n. (\<Sum>i<n. q i k * q i l) = (if k = l then 1 else 0)) \<and>
     (\<forall>i<n. \<forall>j<n. (\<Sum>k<n. q i k * q j k) = (if i = j then 1 else 0))"

definition eig_decomp :: "nat \<Rightarrow> mat \<Rightarrow> vec \<Rightarrow> mat \<Rightarrow> bool" where
  \<comment> \<open>a full decomposition with the eigenvalues in ascending order, as \<^verbatim>\<open>eigh\<close> documents\<close>
  "eig_decomp n A w Q \<longleftrightarrow>
     length w = n \<and> is_mat n n Q \<and> sorted w \<and>
     eigsys n (\<lambda>i j. A ! i ! j) (\<lambda>k. w ! k) (\<lambda>i k. Q ! i ! k)"

definition slice_cols :: "mat \<Rightarrow> nat \<Rightarrow> nat \<Rightarrow> mat" where
  "slice_cols Q lo hi = map (\<lambda>row. take (hi + 1 - lo) (drop lo row)) Q"

definition eigh_ok :: "eigh_impl \<Rightarrow> nat \<Rightarrow> mat \<Rightarrow> bool" where
  \<comment> \<open>on the matrix \<open>A\<close> both calls return, and what they return comes from a full decomposition\<close>
  "eigh_ok la n A \<longleftrightarrow>
     (\<exists>w Q. eig_decomp n A w Q \<and> eigvals_only la A = Inr w) \<and>
     (\<forall>lo hi. lo \<le> hi \<and> hi < n \<longrightarrow>
        (\<exists>w Q. eig_decomp n A w Q \<and>
           eigvals_range la A (int lo) (int hi) = Inr (take (hi + 1 - lo) (drop lo w), slice_cols Q lo hi)))"

definition naive_psd_projection :: "vec \<Rightarrow> mat \<Rightarrow> mat" where
  \<comment> \<open>the reference the spec compares with: all eigenpairs, negative eigenvalues clipped to zero\<close>
  "naive_psd_projection w Q = spectral_sum (map (\<lambda>x. if x < 0 then 0 else x) w) Q"

definition quad_form :: "nat \<Rightarrow> mat \<Rightarrow> vec \<Rightarrow> real" where
  "quad_form n A x = (\<Sum>i<n. \<Sum>j<n. x ! i * A ! i ! j * x ! j)"

definition is_psd :: "nat \<Rightarrow> mat \<Rightarrow> bool" where
  "is_psd n A \<longleftrightarrow> is_sym n A \<and> (\<forall>x. length x = n \<longrightarrow> 0 \<le> quad_form n A x)"

definition is_eigenpair :: "nat \<Rightarrow> mat \<Rightarrow> real \<Rightarrow> vec \<Rightarrow> bool" where
  "is_eigenpair n A lam x \<longleftrightarrow>
     length x = n \<and> (\<exists>i<n. x ! i \<noteq> 0) \<and> (\<forall>i<n. (\<Sum>j<n. A ! i ! j * x ! j) = lam * x ! i)"

section \<open>A solver for two-by-two matrices\<close>

text \<open>
  To run the model on concrete inputs the solver parameter needs a value. For a symmetric
  \<open>2 \<times> 2\<close> matrix the eigenpairs have a closed form; like \<^verbatim>\<open>eigh\<close> it reads the lower
  triangle only. It is proved below to meet \<open>eigh_ok\<close> on every symmetric \<open>2 \<times> 2\<close> matrix.
\<close>

definition eigh2_vals :: "mat \<Rightarrow> vec" where
  "eigh2_vals A =
     (let a = A ! 0 ! 0; b = A ! 1 ! 0; d = A ! 1 ! 1;
          r = sqrt (((a - d) / 2)\<^sup>2 + b\<^sup>2)
      in [(a + d) / 2 - r, (a + d) / 2 + r])"

definition eigh2_vecs :: "mat \<Rightarrow> mat" where
  "eigh2_vecs A =
     (let a = A ! 0 ! 0; b = A ! 1 ! 0; d = A ! 1 ! 1;
          r = sqrt (((a - d) / 2)\<^sup>2 + b\<^sup>2);
          t = (a - d) / 2 + r;
          N = sqrt (b\<^sup>2 + t\<^sup>2);
          c = (if N = 0 then 1 else b / N);
          s = (if N = 0 then 0 else t / N)
      in [[c, s], [- s, c]])"

definition eigh_2x2 :: eigh_impl where
  "eigh_2x2 =
     \<lparr>eigvals_only = (\<lambda>A. if is_mat 2 2 A then Inr (eigh2_vals A) else Inl LinAlgError),
      eigvals_range = (\<lambda>A lo hi.
        if is_mat 2 2 A \<and> 0 \<le> lo \<and> lo \<le> hi \<and> hi < 2
        then Inr (take (nat (hi + 1 - lo)) (drop (nat lo) (eigh2_vals A)),
                  slice_cols (eigh2_vecs A) (nat lo) (nat hi))
        else Inl LinAlgError)\<rparr>"

section \<open>Iterating the loop body, and what holds of every state\<close>

fun admm_iterate :: "eigh_impl \<Rightarrow> mat \<Rightarrow> real \<Rightarrow> real \<Rightarrow> nat \<Rightarrow> admm_state \<Rightarrow> failure + admm_state" where
  "admm_iterate la relational_data K rho 0 s = Inr s"
| "admm_iterate la relational_data K rho (Suc m) s =
     bind_f (admm_iterate la relational_data K rho m s) (admm_iteration la relational_data K rho)"

definition state_sym :: "nat \<Rightarrow> admm_state \<Rightarrow> bool" where
  "state_sym n s \<longleftrightarrow>
     is_sym n (st_X s) \<and> is_sym n (st_Y s) \<and> is_sym n (st_Z s) \<and> is_sym n (st_U s) \<and>
     is_sym n (st_V s) \<and> is_sym n (st_W s) \<and> is_sym n (st_Xbar s)"

definition state_inv :: "nat \<Rightarrow> admm_state \<Rightarrow> bool" where
  "state_inv n s \<longleftrightarrow>
     state_sym n s \<and> is_psd n (st_Z s) \<and>
     madd (madd (st_U s) (st_V s)) (st_W s) = np_zeros n n"

definition solver_ok :: "eigh_impl \<Rightarrow> nat \<Rightarrow> bool" where
  "solver_ok la n \<longleftrightarrow> (\<forall>A. is_sym n A \<longrightarrow> eigh_ok la n A)"

section \<open>A worked run\<close>

text \<open>
  The input \<open>R = [[1, 0], [0, 0]]\<close> with \<open>K = 1\<close> and \<open>rho = 1\<close>. Its Frobenius norm is 1, so
  the normalised matrix is \<open>R\<close> itself. These are the local variables after the first and
  after the second iteration.
\<close>

definition ex_R :: mat where
  "ex_R = [[1, 0], [0, 0]]"

definition ex_state1 :: admm_state where
  "ex_state1 =
     \<lparr>st_X = [[1 / 2, 1 / 2], [1 / 2, 1 / 2]], st_Y = [[1, 0], [0, 1]], st_Z = [[1, 0], [0, 1]],
      st_U = [[- (1 / 3), 1 / 3], [1 / 3, - (1 / 3)]],
      st_V = [[1 / 6, - (1 / 6)], [- (1 / 6), 1 / 6]],
      st_W = [[1 / 6, - (1 / 6)], [- (1 / 6), 1 / 6]],
      st_Xbar = [[5 / 6, 1 / 6], [1 / 6, 5 / 6]],
      st_res_dual = Some (sqrt (1 / 9)), st_res_primal = Some (sqrt (2 / 3))\<rparr>"

definition ex_state2 :: admm_state where
  "ex_state2 =
     \<lparr>st_X = [[1 / 2, 1 / 2], [1 / 2, 1 / 2]],
      st_Y = [[2 / 3, 1 / 3], [1 / 3, 2 / 3]], st_Z = [[2 / 3, 1 / 3], [1 / 3, 2 / 3]],
      st_U = [[- (4 / 9), 4 / 9], [4 / 9, - (4 / 9)]],
      st_V = [[2 / 9, - (2 / 9)], [- (2 / 9), 2 / 9]],
      st_W = [[2 / 9, - (2 / 9)], [- (2 / 9), 2 / 9]],
      st_Xbar = [[11 / 18, 7 / 18], [7 / 18, 11 / 18]],
      st_res_dual = Some (sqrt (16 / 81)), st_res_primal = Some (sqrt (2 / 27))\<rparr>"

section \<open>Basic facts about the matrix operations\<close>

lemma is_mat_nth: "is_mat r c A \<Longrightarrow> i < r \<Longrightarrow> length (A ! i) = c"
  by (auto simp: is_mat_def list_all_length)

lemma is_mat_length: "is_mat r c A \<Longrightarrow> length A = r"
  by (simp add: is_mat_def)

lemma is_mat_mat_of [simp]: "is_mat r c (mat_of r c f)"
  by (simp add: is_mat_def mat_of_def list_all_length)

lemma mat_of_nth [simp]: "i < r \<Longrightarrow> j < c \<Longrightarrow> mat_of r c f ! i ! j = f i j"
  by (simp add: mat_of_def)

lemma length_mat_of [simp]: "length (mat_of r c f) = r"
  by (simp add: mat_of_def)

lemma length_mat_of_row [simp]: "i < r \<Longrightarrow> length (mat_of r c f ! i) = c"
  by (simp add: mat_of_def)

lemma mat_eqI:
  assumes "is_mat r c A" "is_mat r c B" "\<And>i j. i < r \<Longrightarrow> j < c \<Longrightarrow> A ! i ! j = B ! i ! j"
  shows "A = B"
proof (rule nth_equalityI)
  show "length A = length B" using assms by (simp add: is_mat_def)
next
  fix i assume "i < length A"
  then have i: "i < r" using assms(1) by (simp add: is_mat_def)
  show "A ! i = B ! i"
    by (rule nth_equalityI) (use i assms in \<open>auto simp: is_mat_nth\<close>)
qed

lemma mat_of_cong: "(\<And>i j. i < r \<Longrightarrow> j < c \<Longrightarrow> f i j = g i j) \<Longrightarrow> mat_of r c f = mat_of r c g"
  by (simp add: mat_of_def)

lemma mat_of_self: "is_mat r c A \<Longrightarrow> mat_of r c (\<lambda>i j. A ! i ! j) = A"
  by (rule mat_eqI[of r c]) auto

lemma ncols_is_mat: "is_mat r c A \<Longrightarrow> 0 < r \<Longrightarrow> ncols A = c"
  by (cases A) (auto simp: is_mat_def ncols_def)

lemma madd_eq: "is_mat r c A \<Longrightarrow> is_mat r c B \<Longrightarrow> madd A B = mat_of r c (\<lambda>i j. A ! i ! j + B ! i ! j)"
  by (rule mat_eqI[of r c]) (auto simp: madd_def is_mat_def list_all_length)

lemma msub_eq: "is_mat r c A \<Longrightarrow> is_mat r c B \<Longrightarrow> msub A B = mat_of r c (\<lambda>i j. A ! i ! j - B ! i ! j)"
  by (rule mat_eqI[of r c]) (auto simp: msub_def is_mat_def list_all_length)

lemma mneg_eq: "is_mat r c A \<Longrightarrow> mneg A = mat_of r c (\<lambda>i j. - A ! i ! j)"
  by (rule mat_eqI[of r c]) (auto simp: mneg_def is_mat_def list_all_length)

lemma smul_eq: "is_mat r c A \<Longrightarrow> smul k A = mat_of r c (\<lambda>i j. k * A ! i ! j)"
  by (rule mat_eqI[of r c]) (auto simp: smul_def is_mat_def list_all_length)

lemma np_zeros_eq: "np_zeros r c = mat_of r c (\<lambda>i j. 0)"
  by (rule mat_eqI[of r c]) (auto simp: np_zeros_def is_mat_def list_all_length)

lemma proj_positive_eq: "is_mat r c A \<Longrightarrow> proj_positive A t = mat_of r c (\<lambda>i j. if A ! i ! j < t then 0 else A ! i ! j)"
  by (rule mat_eqI[of r c]) (auto simp: proj_positive_def is_mat_def list_all_length)

lemma reshape_repeat: "i < length u \<Longrightarrow> take n (drop (i * n) (concat (map (replicate n) u))) = replicate n (u ! i)"
proof (induction u arbitrary: i)
  case Nil then show ?case by simp
next
  case (Cons a u)
  show ?case
  proof (cases i)
    case 0 then show ?thesis by simp
  next
    case (Suc k)
    then show ?thesis using Cons by simp
  qed
qed

lemma operator_lstarllstarinv_eq:
  "operator_lstarllstarinv u v = mat_of (length u) (length u) (\<lambda>i j. u ! i + (if i = j then v else 0))"
  apply (rule mat_eqI[of "length u" "length u"])
    apply (auto simp: operator_lstarllstarinv_def madd_def np_reshape_def np_repeat_def np_diag_def is_mat_def list_all_length reshape_repeat)
  done

lemma sum_list_upt: "sum_list (map f [0..<n]) = sum f {..<n}"
  by (simp add: interv_sum_list_conv_sum_set_nat atLeast0LessThan)

lemma sum_list_row: "length xs = n \<Longrightarrow> sum_list xs = (\<Sum>j<n. xs ! j)"
  by (simp add: sum_list_sum_nth atLeast0LessThan)

lemma np_sum_axis1_eq: "is_mat r c A \<Longrightarrow> np_sum_axis1 A = map (\<lambda>i. \<Sum>j<c. A ! i ! j) [0..<r]"
  by (rule nth_equalityI) (auto simp: np_sum_axis1_def is_mat_def list_all_length sum_list_row)

lemma np_trace_eq: "is_mat n n A \<Longrightarrow> np_trace A = (\<Sum>i<n. A ! i ! i)"
  by (cases "n = 0") (auto simp: np_trace_def ncols_is_mat sum_list_upt is_mat_def)

lemma np_diagonal_eq: "is_mat n n A \<Longrightarrow> np_diagonal A = map (\<lambda>i. A ! i ! i) [0..<n]"
  by (cases "n = 0") (auto simp: np_diagonal_def ncols_is_mat is_mat_def)

lemma np_T_eq: "is_mat r c A \<Longrightarrow> 0 < r \<Longrightarrow> np_T A = mat_of c r (\<lambda>i j. A ! j ! i)"
  by (simp add: np_T_def ncols_is_mat is_mat_length)

lemma np_diag_eq: "length d = n \<Longrightarrow> np_diag d = mat_of n n (\<lambda>i j. if i = j then d ! i else 0)"
  by (auto simp: np_diag_def)

lemma operator_lstarllstarinv_sym_eq:
  "operator_lstarllstarinv_sym u v =
     mat_of (length u) (length u) (\<lambda>i j. if i = j then u ! i + v else u ! i + u ! j)"
proof (cases "length u = 0")
  case True
  then show ?thesis
    by (simp add: operator_lstarllstarinv_sym_def operator_lstarllstarinv_def np_repeat_def
        np_reshape_def np_diag_def np_diagonal_def np_T_def mat_of_def madd_def msub_def ncols_def)
next
  case False
  let ?n = "length u"
  let ?t = "mat_of ?n ?n (\<lambda>i j. u ! i + (if i = j then v else 0))"
  have T: "np_T ?t = mat_of ?n ?n (\<lambda>i j. ?t ! j ! i)"
    using False by (simp add: np_T_eq[of ?n ?n])
  have "np_diagonal ?t = map (\<lambda>i. ?t ! i ! i) [0..<?n]"
    by (rule np_diagonal_eq) simp
  then have "np_diag (np_diagonal ?t) = mat_of ?n ?n (\<lambda>i j. if i = j then map (\<lambda>i. ?t ! i ! i) [0..<?n] ! i else 0)"
    by (simp add: np_diag_eq[of _ ?n])
  also have "\<dots> = mat_of ?n ?n (\<lambda>i j. if i = j then ?t ! i ! i else 0)"
    by (rule mat_of_cong) simp
  finally have D: "np_diag (np_diagonal ?t) = mat_of ?n ?n (\<lambda>i j. if i = j then ?t ! i ! i else 0)" .
  show ?thesis
    unfolding operator_lstarllstarinv_sym_def Let_def operator_lstarllstarinv_eq T D
    apply (subst madd_eq[of ?n ?n])
      apply simp
     apply simp
    apply (subst msub_eq[of ?n ?n])
      apply simp
     apply simp
    apply (rule mat_of_cong)
    apply simp
    done
qed

lemma bind_f_Inr [simp]: "bind_f (Inr a) f = f a"
  by (simp add: bind_f_def)

lemma bind_f_Inl [simp]: "bind_f (Inl e) f = Inl e"
  by (simp add: bind_f_def)

lemma fdiv_ok [simp]: "b \<noteq> 0 \<Longrightarrow> fdiv a b = Inr (a / b)"
  by (simp add: fdiv_def)

lemma vdiv_ok [simp]: "b \<noteq> 0 \<Longrightarrow> vdiv v b = Inr (map (\<lambda>a. a / b) v)"
  by (simp add: vdiv_def)

lemma mdiv_ok [simp]: "b \<noteq> 0 \<Longrightarrow> mdiv A b = Inr (map (map (\<lambda>a. a / b)) A)"
  by (simp add: mdiv_def)

lemma denominators_nonzero:
  fixes n :: int
  assumes "2 \<le> n"
  shows "n - 1 \<noteq> 0" "n\<^sup>2 - n \<noteq> 0" "2 * n \<noteq> 0" "n \<noteq> 0"
proof -
  show "n - 1 \<noteq> 0" "2 * n \<noteq> 0" "n \<noteq> 0" using assms by auto
  have "n\<^sup>2 - n = n * (n - 1)" by (simp add: power2_eq_square algebra_simps)
  then show "n\<^sup>2 - n \<noteq> 0" using assms by auto
qed


section \<open>The affine projections: closed forms and divisions\<close>

lemma proj_lin_Hsymmetric_eq:
  assumes Y: "is_mat n n Y" and n: "2 \<le> n"
  shows "proj_lin_Hsymmetric Y K =
           Inr (mat_of n n (\<lambda>i j. Y ! i ! j -
              (if i = j then hsym_invx n Y K i + hsym_invy n Y K else hsym_invx n Y K i + hsym_invx n Y K j)))"
proof -
  define x where "x = map (\<lambda>s. s - 1) (np_sum_axis1 Y)"
  define y where "y = np_trace Y - K"
  define a where "a = (sum_list x + y) / (2 * real n)"
  define invx where "invx = map (\<lambda>a. a / (real n - 1)) (map (\<lambda>xi. xi - a) x)"
  define invy where "invy = (y - a) / (real n - 1)"
  have len: "length Y = n" using Y by (simp add: is_mat_def)
  have d: "real n \<noteq> 0" "real n - 1 \<noteq> 0" using n by auto
  have x: "x = map (\<lambda>i. (\<Sum>j<n. Y ! i ! j) - 1) [0..<n]"
    by (simp add: x_def np_sum_axis1_eq[OF Y])
  have sx: "sum_list x = (\<Sum>i<n. (\<Sum>j<n. Y ! i ! j) - 1)"
    by (simp add: x sum_list_upt)
  have y: "y = (\<Sum>i<n. Y ! i ! i) - K"
    by (simp add: y_def np_trace_eq[OF Y])
  have a: "a = hsym_a n Y K" by (simp add: a_def hsym_a_def sx y)
  have lx: "length x = n" by (simp add: x)
  have xi: "i < n \<Longrightarrow> x ! i = (\<Sum>j<n. Y ! i ! j) - 1" for i by (simp add: x)
  have linvx: "length invx = n" by (simp add: invx_def lx)
  have invx: "i < n \<Longrightarrow> invx ! i = hsym_invx n Y K i" for i
    by (simp add: invx_def lx xi hsym_invx_def a)
  have invy: "invy = hsym_invy n Y K"
    by (simp add: invy_def hsym_invy_def a y)
  have "proj_lin_Hsymmetric Y K = Inr (msub Y (operator_lstarllstarinv_sym invx invy))"
    unfolding proj_lin_Hsymmetric_def Let_def len
    using d by (simp add: a_def invx_def invy_def flip: x_def y_def)
  also have "msub Y (operator_lstarllstarinv_sym invx invy) =
      mat_of n n (\<lambda>i j. Y ! i ! j -
              (if i = j then hsym_invx n Y K i + hsym_invy n Y K else hsym_invx n Y K i + hsym_invx n Y K j))"
    unfolding operator_lstarllstarinv_sym_eq linvx invy
    apply (subst msub_eq[OF Y])
     apply simp
    apply (rule mat_of_cong)
    apply (simp add: invx)
    done
  finally show ?thesis .
qed

lemma proj_lin_Hrows_small: "length Y < 2 \<Longrightarrow> proj_lin_Hrows Y K = Inl NonFinite"
proof -
  assume "length Y < 2"
  then have "length Y = 0 \<or> length Y = 1" by linarith
  then show ?thesis
    by (auto simp: proj_lin_Hrows_def Let_def fdiv_def)
qed

lemma proj_lin_Hsymmetric_small: "length Y < 2 \<Longrightarrow> proj_lin_Hsymmetric Y K = Inl NonFinite"
proof -
  assume "length Y < 2"
  then have "length Y = 0 \<or> length Y = 1" by linarith
  then show ?thesis
    by (auto simp: proj_lin_Hsymmetric_def Let_def fdiv_def vdiv_def np_sum_axis1_def)
qed

lemma proj_lin_Hrows_returns: "2 \<le> length Y \<Longrightarrow> \<exists>Z. proj_lin_Hrows Y K = Inr Z"
  using denominators_nonzero[of "int (length Y)"]
  by (simp add: proj_lin_Hrows_def Let_def)

lemma proj_lin_Hsymmetric_returns: "2 \<le> length Y \<Longrightarrow> \<exists>Z. proj_lin_Hsymmetric Y K = Inr Z"
  using denominators_nonzero[of "int (length Y)"]
  by (simp add: proj_lin_Hsymmetric_def Let_def)


text \<open>
  Claim C8. For \<open>n \<ge> 2\<close> the denominators \<open>n - 1\<close>, \<open>n\<^sup>2 - n\<close> and \<open>2 n\<close> of the
  closed-form solves are nonzero and both affine projections return a matrix without any
  division by zero. For \<open>n < 2\<close> a division by zero takes place in each of them; nothing
  guards it and no exception is raised, so the model ends in \<open>NonFinite\<close>.
\<close>

theorem proj_lin_division_by_zero:
  "(2 \<le> length Y \<longrightarrow>
      int (length Y) - 1 \<noteq> 0 \<and> (int (length Y))\<^sup>2 - int (length Y) \<noteq> 0 \<and> 2 * int (length Y) \<noteq> 0 \<and>
      (\<exists>Z. proj_lin_Hrows Y K = Inr Z) \<and> (\<exists>Z. proj_lin_Hsymmetric Y K = Inr Z)) \<and>
   (length Y < 2 \<longrightarrow>
      proj_lin_Hrows Y K = Inl NonFinite \<and> proj_lin_Hsymmetric Y K = Inl NonFinite)"
  using denominators_nonzero[of "int (length Y)"]
  by (auto simp: proj_lin_Hrows_small proj_lin_Hsymmetric_small
      dest: proj_lin_Hrows_returns proj_lin_Hsymmetric_returns)

theorem proj_lin_division_by_zero_witness:
  "(\<exists>Z. proj_lin_Hrows [[1, 2], [3, 4]] 1 = Inr Z) \<and> (\<exists>Z. proj_lin_Hsymmetric [[1, 2], [3, 4]] 1 = Inr Z) \<and>
   proj_lin_Hrows [[5]] 1 = Inl NonFinite \<and> proj_lin_Hsymmetric [[5]] 1 = Inl NonFinite"
  using proj_lin_division_by_zero[of "[[1, 2], [3, 4]]" 1] proj_lin_division_by_zero[of "[[5]]" 1]
  by simp

section \<open>The entrywise clamp\<close>

text \<open>
  Claim C7, as amended. \<open>proj_positive X t\<close> has the shape of \<open>X\<close>, every entry below \<open>t\<close>
  is replaced by 0 and every other entry is unchanged. The output has no entry below
  \<open>t\<close> when \<open>t \<le> 0\<close>, which covers the default threshold 0.
\<close>

theorem proj_positive_clamps:
  "length (proj_positive X t) = length X \<and>
   (\<forall>i<length X. length (proj_positive X t ! i) = length (X ! i) \<and>
      (\<forall>j<length (X ! i). proj_positive X t ! i ! j = (if X ! i ! j < t then 0 else X ! i ! j))) \<and>
   (t \<le> 0 \<longrightarrow> (\<forall>a\<in>set (concat (proj_positive X t)). t \<le> a))"
  by (auto simp: proj_positive_def)

theorem proj_positive_clamps_witness:
  "proj_positive [[-1, 2], [3, -4]] 0 = [[0, 2], [3, 0]] \<and>
   list_all (\<lambda>a. 0 \<le> a) (concat (proj_positive [[-1, 2], [3, -4]] 0))"
  using proj_positive_clamps[of "[[-1, 2], [3, -4]]" 0]
  by (simp add: proj_positive_def)

text \<open>
  For a positive threshold the clamped entries are 0, which lies below the threshold:
  with \<open>t = 1\<close> the entry \<open>1/2\<close> becomes \<open>0 < 1\<close>.
\<close>

theorem proj_positive_threshold_counterexample:
  "proj_positive [[1 / 2]] 1 = [[0]] \<and> proj_positive [[1 / 2]] 1 ! 0 ! 0 < 1"
  by (simp add: proj_positive_def)

section \<open>The row projection is the nearest feasible matrix\<close>

lemma msub_nth: "is_mat r c A \<Longrightarrow> is_mat r c B \<Longrightarrow> i < r \<Longrightarrow> j < c \<Longrightarrow> msub A B ! i ! j = A ! i ! j - B ! i ! j"
  by (simp add: msub_eq)

lemma madd_nth: "is_mat r c A \<Longrightarrow> is_mat r c B \<Longrightarrow> i < r \<Longrightarrow> j < c \<Longrightarrow> madd A B ! i ! j = A ! i ! j + B ! i ! j"
  by (simp add: madd_eq)

lemma is_mat_msub [simp]: "is_mat r c A \<Longrightarrow> is_mat r c B \<Longrightarrow> is_mat r c (msub A B)"
  by (simp add: msub_eq)

lemma is_mat_madd [simp]: "is_mat r c A \<Longrightarrow> is_mat r c B \<Longrightarrow> is_mat r c (madd A B)"
  by (simp add: madd_eq)

lemma sum_list_concat_map: "sum_list (map f (concat A)) = sum_list (map (\<lambda>row. sum_list (map f row)) A)"
  by (induction A) simp_all

lemma norm_fro_eq: "is_mat r c A \<Longrightarrow> norm_fro A = sqrt (sumsq r c A)"
proof -
  assume A: "is_mat r c A"
  have "(\<Sum>a\<leftarrow>concat A. a\<^sup>2) = sum_list (map (\<lambda>row. \<Sum>a\<leftarrow>row. a\<^sup>2) A)"
    by (rule sum_list_concat_map)
  also have "\<dots> = (\<Sum>i<r. \<Sum>a\<leftarrow>A ! i. a\<^sup>2)"
    using A by (simp add: sum_list_sum_nth is_mat_def atLeast0LessThan)
  also have "\<dots> = (\<Sum>i<r. \<Sum>j<c. (A ! i ! j)\<^sup>2)"
    by (rule sum.cong) (use A in \<open>auto simp: sum_list_sum_nth is_mat_nth atLeast0LessThan\<close>)
  finally show ?thesis by (simp add: norm_fro_def sumsq_def)
qed


lemma is_sym_iff: "is_sym n A \<longleftrightarrow> is_mat n n A \<and> (\<forall>i<n. \<forall>j<n. A ! i ! j = A ! j ! i)"
  by (auto simp: is_sym_def list_all_iff)









section \<open>The symmetric projection: feasibility and symmetry\<close>




lemma hsym_correction_split:
  "(if i = j then u i + v else u i + u j) = u i + u j + (if i = j then v - u i else (0::real))"
  by simp

lemma hsym_closed_nth:
  "i < n \<Longrightarrow> j < n \<Longrightarrow> hsym_closed n Y K ! i ! j =
     Y ! i ! j - (if i = j then hsym_invx n Y K i + hsym_invy n Y K else hsym_invx n Y K i + hsym_invx n Y K j)"
  by (simp add: hsym_closed_def)

lemma is_mat_hsym_closed [simp]: "is_mat n n (hsym_closed n Y K)"
  by (simp add: hsym_closed_def)


lemma proj_lin_Hsymmetric_sym:
  assumes Y: "is_sym n Y"
  shows "is_sym n (hsym_closed n Y K)"
  using Y by (auto simp: is_sym_iff hsym_closed_nth)

section \<open>The symmetric projection is nearest in the upper-triangle norm\<close>

lemma sum_from_indicator:
  fixes f :: "nat \<Rightarrow> real"
  shows "(\<Sum>j = i..<n. f j) = (\<Sum>j<n. if i \<le> j then f j else 0)"
proof -
  have "{j \<in> {..<n}. i \<le> j} = {i..<n}" by auto
  then show ?thesis using sum.inter_filter[of "{..<n}" f "\<lambda>j. i \<le> j"] by simp
qed





section \<open>The affine projections, summarised\<close>


lemma upt_2: "[0..<2] = [0, 1]"
  by (simp add: upt_rec)


lemma proj_lin_Hsymmetric_closed:
  "is_mat n n Y \<Longrightarrow> 2 \<le> n \<Longrightarrow> proj_lin_Hsymmetric Y K = Inr (hsym_closed n Y K)"
  by (simp add: proj_lin_Hsymmetric_eq hsym_closed_def)




section \<open>Orthonormal eigensystems\<close>

lemma eigsysD:
  assumes "eigsys n a w q"
  shows "\<And>k i. k < n \<Longrightarrow> i < n \<Longrightarrow> (\<Sum>j<n. a i j * q j k) = w k * q i k"
    and "\<And>k l. k < n \<Longrightarrow> l < n \<Longrightarrow> (\<Sum>i<n. q i k * q i l) = (if k = l then 1 else 0)"
    and "\<And>i j. i < n \<Longrightarrow> j < n \<Longrightarrow> (\<Sum>k<n. q i k * q j k) = (if i = j then 1 else 0)"
  using assms by (auto simp: eigsys_def)

lemma sum_delta_right:
  fixes f :: "nat \<Rightarrow> real"
  assumes "j < n"
  shows "(\<Sum>l<n. f l * (if l = j then 1 else 0)) = f j"
proof -
  have "(\<Sum>l<n. f l * (if l = j then 1 else 0)) = (\<Sum>l<n. if l = j then f l else 0)"
    by (intro sum.cong refl) simp
  then show ?thesis using assms by simp
qed

lemma eigsys_reconstruct:
  assumes E: "eigsys n a w q" and i: "i < n" and j: "j < n"
  shows "(\<Sum>k<n. w k * q i k * q j k) = a i j"
proof -
  have "(\<Sum>k<n. w k * q i k * q j k) = (\<Sum>k<n. (\<Sum>l<n. a i l * q l k) * q j k)"
    by (intro sum.cong refl) (simp add: eigsysD(1)[OF E] i)
  also have "\<dots> = (\<Sum>k<n. \<Sum>l<n. a i l * (q l k * q j k))"
    by (simp add: sum_distrib_right mult.assoc)
  also have "\<dots> = (\<Sum>l<n. \<Sum>k<n. a i l * (q l k * q j k))"
    by (rule sum.swap)
  also have "\<dots> = (\<Sum>l<n. a i l * (\<Sum>k<n. q l k * q j k))"
    by (simp add: sum_distrib_left)
  also have "\<dots> = (\<Sum>l<n. a i l * (if l = j then 1 else 0))"
    by (intro sum.cong refl) (simp add: eigsysD(3)[OF E] j)
  also have "\<dots> = a i j"
    by (rule sum_delta_right[OF j])
  finally show ?thesis .
qed

lemma eigsys_sym:
  assumes E: "eigsys n a w q" and i: "i < n" and j: "j < n"
  shows "a i j = a j i"
proof -
  have "a i j = (\<Sum>k<n. w k * q i k * q j k)" using eigsys_reconstruct[OF E i j] by simp
  also have "\<dots> = (\<Sum>k<n. w k * q j k * q i k)" by (intro sum.cong refl) simp
  also have "\<dots> = a j i" by (rule eigsys_reconstruct[OF E j i])
  finally show ?thesis .
qed

lemma eigsys_cross:
  assumes E: "eigsys n a w q" and E': "eigsys n a w' q'" and k: "k < n" and l: "l < n"
  shows "w k * (\<Sum>i<n. q i k * q' i l) = w' l * (\<Sum>i<n. q i k * q' i l)"
proof -
  have "w k * (\<Sum>i<n. q i k * q' i l) = (\<Sum>i<n. (w k * q i k) * q' i l)"
    by (simp add: sum_distrib_left mult.assoc)
  also have "\<dots> = (\<Sum>i<n. (\<Sum>j<n. a i j * q j k) * q' i l)"
    by (intro sum.cong refl) (simp add: eigsysD(1)[OF E] k)
  also have "\<dots> = (\<Sum>i<n. \<Sum>j<n. q j k * (a j i * q' i l))"
    by (simp add: sum_distrib_right) (intro sum.cong refl, simp add: eigsys_sym[OF E])
  also have "\<dots> = (\<Sum>j<n. \<Sum>i<n. q j k * (a j i * q' i l))"
    by (rule sum.swap)
  also have "\<dots> = (\<Sum>j<n. q j k * (\<Sum>i<n. a j i * q' i l))"
    by (simp add: sum_distrib_left)
  also have "\<dots> = (\<Sum>j<n. q j k * (w' l * q' j l))"
    by (intro sum.cong refl) (simp add: eigsysD(1)[OF E'] l)
  also have "\<dots> = w' l * (\<Sum>i<n. q i k * q' i l)"
    by (simp add: sum_distrib_left mult_ac)
  finally show ?thesis .
qed

lemma eigsys_cross_f:
  fixes f :: "real \<Rightarrow> real"
  assumes E: "eigsys n a w q" and E': "eigsys n a w' q'" and k: "k < n" and l: "l < n"
  shows "f (w k) * (\<Sum>i<n. q i k * q' i l) = f (w' l) * (\<Sum>i<n. q i k * q' i l)"
proof (cases "w k = w' l")
  case True then show ?thesis by simp
next
  case False
  have "(w k - w' l) * (\<Sum>i<n. q i k * q' i l) = 0"
    using eigsys_cross[OF E E' k l] by (simp add: algebra_simps)
  with False have "(\<Sum>i<n. q i k * q' i l) = 0" by simp
  then show ?thesis by simp
qed

lemma eigsys_expand:
  assumes E: "eigsys n a w q" and j: "j < n"
  shows "(\<Sum>k<n. q j k * (\<Sum>i<n. q i k * x i)) = x j"
proof -
  have "(\<Sum>k<n. q j k * (\<Sum>i<n. q i k * x i)) = (\<Sum>k<n. \<Sum>i<n. (q i k * q j k) * x i)"
    by (simp add: sum_distrib_left mult_ac)
  also have "\<dots> = (\<Sum>i<n. \<Sum>k<n. (q i k * q j k) * x i)"
    by (rule sum.swap)
  also have "\<dots> = (\<Sum>i<n. (\<Sum>k<n. q i k * q j k) * x i)"
    by (simp add: sum_distrib_right)
  also have "\<dots> = (\<Sum>i<n. x i * (if i = j then 1 else 0))"
    by (intro sum.cong refl) (simp add: eigsysD(3)[OF E] j)
  also have "\<dots> = x j"
    by (rule sum_delta_right[OF j])
  finally show ?thesis .
qed

lemma eigsys_functional:
  fixes f :: "real \<Rightarrow> real"
  assumes E: "eigsys n a w q" and E': "eigsys n a w' q'" and i: "i < n" and j: "j < n"
  shows "(\<Sum>k<n. f (w k) * q i k * q j k) = (\<Sum>l<n. f (w' l) * q' i l * q' j l)"
proof -
  define c where "c = (\<lambda>k l. \<Sum>m<n. q m k * q' m l)"
  have qj: "q j k = (\<Sum>l<n. q' j l * c k l)" for k
    using eigsys_expand[OF E' j, of "\<lambda>m. q m k"] by (simp add: c_def mult.commute)
  have q'i: "q' i l = (\<Sum>k<n. q i k * c k l)" for l
    using eigsys_expand[OF E i, of "\<lambda>m. q' m l"] by (simp add: c_def)
  have "(\<Sum>k<n. f (w k) * q i k * q j k) = (\<Sum>k<n. \<Sum>l<n. (f (w k) * c k l) * (q i k * q' j l))"
    by (subst qj) (simp add: sum_distrib_left mult_ac)
  also have "\<dots> = (\<Sum>k<n. \<Sum>l<n. (f (w' l) * c k l) * (q i k * q' j l))"
    by (intro sum.cong refl) (simp add: eigsys_cross_f[OF E E'] c_def)
  also have "\<dots> = (\<Sum>l<n. \<Sum>k<n. (f (w' l) * c k l) * (q i k * q' j l))"
    by (rule sum.swap)
  also have "\<dots> = (\<Sum>l<n. f (w' l) * (\<Sum>k<n. q i k * c k l) * q' j l)"
    by (simp add: sum_distrib_left sum_distrib_right mult_ac)
  also have "\<dots> = (\<Sum>l<n. f (w' l) * q' i l * q' j l)"
    by (simp add: q'i[symmetric])
  finally show ?thesis .
qed

lemma eigsys_trace_f:
  fixes f :: "real \<Rightarrow> real"
  assumes E: "eigsys n a w q"
  shows "(\<Sum>i<n. \<Sum>k<n. f (w k) * q i k * q i k) = (\<Sum>k<n. f (w k))"
proof -
  have "(\<Sum>i<n. \<Sum>k<n. f (w k) * q i k * q i k) = (\<Sum>k<n. \<Sum>i<n. f (w k) * (q i k * q i k))"
    by (subst sum.swap) (simp add: mult.assoc)
  also have "\<dots> = (\<Sum>k<n. f (w k) * (\<Sum>i<n. q i k * q i k))"
    by (simp add: sum_distrib_left)
  also have "\<dots> = (\<Sum>k<n. f (w k))"
    by (intro sum.cong refl) (simp add: eigsysD(2)[OF E])
  finally show ?thesis .
qed

lemma eigsys_sum_f:
  fixes f :: "real \<Rightarrow> real"
  assumes E: "eigsys n a w q" and E': "eigsys n a w' q'"
  shows "(\<Sum>k<n. f (w k)) = (\<Sum>l<n. f (w' l))"
proof -
  have "(\<Sum>k<n. f (w k)) = (\<Sum>i<n. \<Sum>k<n. f (w k) * q i k * q i k)"
    by (rule eigsys_trace_f[OF E, symmetric])
  also have "\<dots> = (\<Sum>i<n. \<Sum>l<n. f (w' l) * q' i l * q' i l)"
    by (rule sum.cong[OF refl]) (simp add: eigsys_functional[OF E E'])
  also have "\<dots> = (\<Sum>l<n. f (w' l))"
    by (rule eigsys_trace_f[OF E'])
  finally show ?thesis .
qed

lemma eigsys_neg:
  assumes E: "eigsys n a w q"
  shows "eigsys n (\<lambda>i j. - a i j) (\<lambda>k. - w k) q"
  using E unfolding eigsys_def by (simp add: sum_negf)

section \<open>Spectral sums, slices and counts of negative eigenvalues\<close>

lemma eigsys_cong:
  assumes "\<And>i j. i < n \<Longrightarrow> j < n \<Longrightarrow> a i j = a' i j"
    and "\<And>k. k < n \<Longrightarrow> w k = w' k"
  shows "eigsys n a w q \<longleftrightarrow> eigsys n a' w' q"
  unfolding eigsys_def using assms by auto

lemma np_dot_eq:
  assumes A: "is_mat r m A" and B: "is_mat m c B" and m: "0 < m"
  shows "np_dot A B = mat_of r c (\<lambda>i j. \<Sum>k<m. A ! i ! k * B ! k ! j)"
  using A B m by (simp add: np_dot_def is_mat_length ncols_is_mat[OF B] sum_list_upt)

lemma spectral_sum_eq:
  assumes v: "is_mat n m v" and w: "length w = m" and m: "0 < m" and n: "0 < n"
  shows "spectral_sum w v = mat_of n n (\<lambda>i j. \<Sum>k<m. v ! i ! k * w ! k * v ! j ! k)"
proof -
  have 1: "np_dot v (np_diag w) = mat_of n m (\<lambda>i k. v ! i ! k * w ! k)"
  proof -
    have "np_dot v (np_diag w) = mat_of n m (\<lambda>i j. \<Sum>k<m. v ! i ! k * mat_of m m (\<lambda>i j. if i = j then w ! i else 0) ! k ! j)"
      using np_dot_eq[OF v _ m, of m "np_diag w"] by (simp add: np_diag_eq[OF w])
    also have "\<dots> = mat_of n m (\<lambda>i k. v ! i ! k * w ! k)"
    proof (rule mat_of_cong)
      fix i j assume "i < n" "j < m"
      have "(\<Sum>k<m. v ! i ! k * mat_of m m (\<lambda>i j. if i = j then w ! i else 0) ! k ! j) =
            (\<Sum>k<m. (v ! i ! k * w ! k) * (if k = j then 1 else 0))"
        by (intro sum.cong refl) (use \<open>j < m\<close> in simp)
      also have "\<dots> = v ! i ! j * w ! j"
        by (rule sum_delta_right[OF \<open>j < m\<close>])
      finally show "(\<Sum>k<m. v ! i ! k * mat_of m m (\<lambda>i j. if i = j then w ! i else 0) ! k ! j) = v ! i ! j * w ! j" .
    qed
    finally show ?thesis .
  qed
  have 2: "np_T v = mat_of m n (\<lambda>k j. v ! j ! k)"
    by (rule np_T_eq[OF v n])
  have "spectral_sum w v = mat_of n n (\<lambda>i j. \<Sum>k<m. mat_of n m (\<lambda>i k. v ! i ! k * w ! k) ! i ! k * mat_of m n (\<lambda>k j. v ! j ! k) ! k ! j)"
    unfolding spectral_sum_def 1 2 by (rule np_dot_eq[OF _ _ m]) simp_all
  also have "\<dots> = mat_of n n (\<lambda>i j. \<Sum>k<m. v ! i ! k * w ! k * v ! j ! k)"
    by (rule mat_of_cong) simp
  finally show ?thesis .
qed

lemma is_mat_slice_cols:
  assumes Q: "is_mat n c Q" and "lo \<le> hi" "hi < c"
  shows "is_mat n (hi + 1 - lo) (slice_cols Q lo hi)"
  using assms by (auto simp: is_mat_def slice_cols_def list_all_length)

lemma slice_cols_nth:
  assumes Q: "is_mat n c Q" and "lo \<le> hi" "hi < c" "i < n" "k < hi + 1 - lo"
  shows "slice_cols Q lo hi ! i ! k = Q ! i ! (lo + k)"
  using assms by (auto simp: is_mat_def slice_cols_def list_all_length)

lemma length_filter_sum:
  "real (length (filter P xs)) = (\<Sum>k<length xs. if P (xs ! k) then 1 else 0)"
proof (induction xs)
  case Nil then show ?case by simp
next
  case (Cons x xs)
  show ?case
    by (simp add: sum.lessThan_Suc_shift Cons.IH del: sum.lessThan_Suc)
qed

lemma sorted_negative_prefix:
  fixes xs :: "real list"
  assumes "sorted xs" and "i < length xs"
  shows "xs ! i < 0 \<longleftrightarrow> i < length (filter (\<lambda>w. w < 0) xs)"
  using assms
proof (induction xs arbitrary: i)
  case Nil then show ?case by simp
next
  case (Cons x xs)
  show ?case
  proof (cases "x < 0")
    case True
    then show ?thesis using Cons by (cases i) auto
  next
    case False
    then have all: "\<forall>y\<in>set (x # xs). \<not> y < 0" using Cons.prems(1) by auto
    then have "filter (\<lambda>w. w < 0) (x # xs) = []" by (simp add: filter_empty_conv)
    moreover have "\<not> (x # xs) ! i < 0" using all Cons.prems(2) nth_mem by blast
    ultimately show ?thesis by simp
  qed
qed

lemma sorted_positive_suffix:
  fixes xs :: "real list"
  assumes "sorted xs" and "i < length xs"
  shows "0 < xs ! i \<longleftrightarrow> length xs - length (filter (\<lambda>w. 0 < w) xs) \<le> i"
  using assms
proof (induction xs arbitrary: i)
  case Nil then show ?case by simp
next
  case (Cons x xs)
  have le: "length (filter (\<lambda>w. 0 < w) xs) \<le> length xs" by simp
  show ?case
  proof (cases "0 < x")
    case True
    then have all: "\<forall>y\<in>set (x # xs). 0 < y" using Cons.prems(1) by auto
    then have "filter (\<lambda>w. 0 < w) (x # xs) = x # xs" by (simp add: filter_id_conv)
    moreover have "0 < (x # xs) ! i" using all Cons.prems(2) nth_mem by blast
    ultimately show ?thesis by simp
  next
    case False
    show ?thesis
    proof (cases i)
      case 0
      then show ?thesis using False le by (simp add: Suc_diff_le)
    next
      case (Suc i')
      then show ?thesis using False le Cons by (simp add: Suc_diff_le)
    qed
  qed
qed

lemma sum_tail_indicator:
  fixes g :: "nat \<Rightarrow> real"
  assumes "lo \<le> n"
  shows "(\<Sum>m<n - lo. g (lo + m)) = (\<Sum>l<n. if lo \<le> l then g l else 0)"
proof -
  have "(\<Sum>m<n - lo. g (lo + m)) = (\<Sum>m = 0..<n - lo. g (m + lo))"
    by (simp add: atLeast0LessThan add.commute)
  also have "\<dots> = (\<Sum>l = 0 + lo..<(n - lo) + lo. g l)"
    by (rule sum.shift_bounds_nat_ivl[symmetric])
  also have "\<dots> = (\<Sum>l = lo..<n. g l)"
    using assms by simp
  also have "\<dots> = (\<Sum>l<n. if lo \<le> l then g l else 0)"
    by (rule sum_from_indicator)
  finally show ?thesis .
qed

section \<open>The branch that keeps the non-negative eigenpairs\<close>

lemma eig_decompD:
  assumes "eig_decomp n A w Q"
  shows "length w = n" "is_mat n n Q" "sorted w"
    "eigsys n (\<lambda>i j. A ! i ! j) (\<lambda>k. w ! k) (\<lambda>i k. Q ! i ! k)"
  using assms by (simp_all add: eig_decomp_def)

lemma naive_psd_projection_eq:
  assumes D: "eig_decomp n A w Q" and n: "0 < n"
  shows "naive_psd_projection w Q =
           mat_of n n (\<lambda>i j. \<Sum>k<n. (if w ! k < 0 then 0 else w ! k) * Q ! i ! k * Q ! j ! k)"
proof -
  have "naive_psd_projection w Q =
          mat_of n n (\<lambda>i j. \<Sum>k<n. Q ! i ! k * map (\<lambda>x. if x < 0 then 0 else x) w ! k * Q ! j ! k)"
    unfolding naive_psd_projection_def
    by (rule spectral_sum_eq[OF eig_decompD(2)[OF D] _ n n]) (simp add: eig_decompD(1)[OF D])
  also have "\<dots> = mat_of n n (\<lambda>i j. \<Sum>k<n. (if w ! k < 0 then 0 else w ! k) * Q ! i ! k * Q ! j ! k)"
    by (rule mat_of_cong, rule sum.cong[OF refl]) (simp add: eig_decompD(1)[OF D])
  finally show ?thesis .
qed

lemma count_negative_unique:
  assumes D: "eig_decomp n A w Q" and E': "eigsys n (\<lambda>i j. A ! i ! j) w' q'"
  shows "real (length (filter (\<lambda>x. x < 0) w)) = (\<Sum>l<n. if w' l < 0 then 1 else 0)"
proof -
  have "real (length (filter (\<lambda>x. x < 0) w)) = (\<Sum>k<n. if w ! k < 0 then 1 else 0)"
    by (simp add: length_filter_sum eig_decompD(1)[OF D])
  also have "\<dots> = (\<Sum>l<n. if w' l < 0 then 1 else 0)"
    by (rule eigsys_sum_f[OF eig_decompD(4)[OF D] E', of "\<lambda>x. if x < 0 then 1 else 0"])
  finally show ?thesis .
qed

lemma count_negative_decomp:
  assumes D: "eig_decomp n A w Q" and D': "eig_decomp n A w' Q'"
  shows "length (filter (\<lambda>x. x < 0) w) = length (filter (\<lambda>x. x < 0) w')"
proof -
  have "real (length (filter (\<lambda>x. x < 0) w)) = (\<Sum>l<n. if w' ! l < 0 then 1 else 0)"
    by (rule count_negative_unique[OF D eig_decompD(4)[OF D']])
  also have "\<dots> = real (length (filter (\<lambda>x. x < 0) w'))"
    by (simp add: length_filter_sum eig_decompD(1)[OF D'])
  finally show ?thesis by simp
qed

lemma naive_entry_unique:
  assumes D: "eig_decomp n A w Q" and E': "eigsys n (\<lambda>i j. A ! i ! j) w' q'" and "i < n" "j < n"
  shows "(\<Sum>k<n. (if w ! k < 0 then 0 else w ! k) * Q ! i ! k * Q ! j ! k) =
         (\<Sum>l<n. (if w' l < 0 then 0 else w' l) * q' i l * q' j l)"
  by (rule eigsys_functional[OF eig_decompD(4)[OF D] E' assms(3,4), of "\<lambda>x. if x < 0 then 0 else x"])

lemma psd_keep_positive_naive:
  assumes Y: "is_mat n n Y" and ok: "eigh_ok la n Y" and D: "eig_decomp n Y w Q"
    and k: "k = length (filter (\<lambda>x. x < 0) w)" and kn: "k < n"
  shows "psd_keep_positive la Y (int k) = Inr (naive_psd_projection w Q)"
proof -
  have n: "0 < n" using kn by simp
  have len: "length Y = n" using Y by (simp add: is_mat_def)
  from ok kn obtain w3 Q3 where D3: "eig_decomp n Y w3 Q3"
    and r: "eigvals_range la Y (int k) (int (n - 1)) = Inr (take (n - 1 + 1 - k) (drop k w3), slice_cols Q3 k (n - 1))"
    unfolding eigh_ok_def by (metis Suc_pred' less_Suc_eq_le diff_less zero_less_one n)
  define ws where "ws = take (n - k) (drop k w3)"
  define v where "v = slice_cols Q3 k (n - 1)"
  have e: "n - 1 + 1 - k = n - k" using n by simp
  have k3: "length (filter (\<lambda>x. x < 0) w3) = k"
    unfolding k by (rule count_negative_decomp[OF D3 D])
  have vm: "is_mat n (n - k) v"
    using is_mat_slice_cols[OF eig_decompD(2)[OF D3], of k "n - 1"] kn n by (simp add: v_def e)
  have lws: "length ws = n - k" by (simp add: ws_def eig_decompD(1)[OF D3])
  have wsm: "ws ! m = w3 ! (k + m)" if "m < n - k" for m
    using that by (simp add: ws_def eig_decompD(1)[OF D3])
  have vim: "v ! i ! m = Q3 ! i ! (k + m)" if "i < n" "m < n - k" for i m
    unfolding v_def using slice_cols_nth[OF eig_decompD(2)[OF D3], of k "n - 1" i m] that kn n
    by (simp add: e)
  have "psd_keep_positive la Y (int k) = Inr (spectral_sum ws v)"
    unfolding psd_keep_positive_def Let_def len using r n
    by (simp add: e ws_def v_def of_nat_diff)
  also have "spectral_sum ws v = mat_of n n (\<lambda>i j. \<Sum>m<n - k. v ! i ! m * ws ! m * v ! j ! m)"
    by (rule spectral_sum_eq[OF vm lws _ n]) (use kn in simp)
  also have "\<dots> = naive_psd_projection w Q"
    unfolding naive_psd_projection_eq[OF D n]
  proof (rule mat_of_cong)
    fix i j assume i: "i < n" and j: "j < n"
    have "(\<Sum>m<n - k. v ! i ! m * ws ! m * v ! j ! m) = (\<Sum>m<n - k. Q3 ! i ! (k + m) * w3 ! (k + m) * Q3 ! j ! (k + m))"
      by (rule sum.cong[OF refl]) (simp add: vim i j wsm)
    also have "\<dots> = (\<Sum>l<n. if k \<le> l then Q3 ! i ! l * w3 ! l * Q3 ! j ! l else 0)"
      by (rule sum_tail_indicator) (use kn in simp)
    also have "\<dots> = (\<Sum>l<n. (if w3 ! l < 0 then 0 else w3 ! l) * Q3 ! i ! l * Q3 ! j ! l)"
    proof (rule sum.cong[OF refl])
      fix l assume "l \<in> {..<n}"
      then have "w3 ! l < 0 \<longleftrightarrow> l < k"
        using sorted_negative_prefix[OF eig_decompD(3)[OF D3], of l] by (simp add: k3 eig_decompD(1)[OF D3])
      then show "(if k \<le> l then Q3 ! i ! l * w3 ! l * Q3 ! j ! l else 0) =
          (if w3 ! l < 0 then 0 else w3 ! l) * Q3 ! i ! l * Q3 ! j ! l"
        by auto
    qed
    also have "\<dots> = (\<Sum>k<n. (if w ! k < 0 then 0 else w ! k) * Q ! i ! k * Q ! j ! k)"
      by (rule naive_entry_unique[OF D3 eig_decompD(4)[OF D] i j])
    finally show "(\<Sum>m<n - k. v ! i ! m * ws ! m * v ! j ! m) =
        (\<Sum>k<n. (if w ! k < 0 then 0 else w ! k) * Q ! i ! k * Q ! j ! k)" .
  qed
  finally show ?thesis .
qed

section \<open>The branch that adds the negative part back, and the whole projection\<close>

lemma mneg_nth: "is_mat r c A \<Longrightarrow> i < r \<Longrightarrow> j < c \<Longrightarrow> mneg A ! i ! j = - A ! i ! j"
  by (simp add: mneg_eq)

lemma eig_decomp_mneg_eigsys:
  assumes Y: "is_mat n n Y" and D2: "eig_decomp n (mneg Y) w2 Q2"
  shows "eigsys n (\<lambda>i j. Y ! i ! j) (\<lambda>l. - w2 ! l) (\<lambda>i k. Q2 ! i ! k)"
proof -
  have "eigsys n (\<lambda>i j. - mneg Y ! i ! j) (\<lambda>l. - w2 ! l) (\<lambda>i k. Q2 ! i ! k)"
    by (rule eigsys_neg[OF eig_decompD(4)[OF D2]])
  then show ?thesis
    by (subst eigsys_cong[where a' = "\<lambda>i j. - mneg Y ! i ! j" and w' = "\<lambda>l. - w2 ! l"])
       (simp_all add: mneg_nth[OF Y])
qed

lemma psd_add_negative_naive:
  assumes Y: "is_mat n n Y" and okn: "eigh_ok la n (mneg Y)" and D: "eig_decomp n Y w Q"
    and k: "k = length (filter (\<lambda>x. x < 0) w)" and k0: "0 < k" and kn: "k \<le> n"
  shows "psd_add_negative la Y (int k) = Inr (naive_psd_projection w Q)"
proof -
  have n: "0 < n" using k0 kn by simp
  have len: "length Y = n" using Y by (simp add: is_mat_def)
  have e: "n - 1 + 1 - (n - k) = k" using k0 kn by simp
  have "n - k \<le> n - 1 \<and> n - 1 < n" using k0 kn by auto
  with okn obtain w2 Q2 where D2: "eig_decomp n (mneg Y) w2 Q2"
    and r: "eigvals_range la (mneg Y) (int (n - k)) (int (n - 1)) =
              Inr (take (n - 1 + 1 - (n - k)) (drop (n - k) w2), slice_cols Q2 (n - k) (n - 1))"
    unfolding eigh_ok_def by blast
  define ws where "ws = take k (drop (n - k) w2)"
  define v where "v = slice_cols Q2 (n - k) (n - 1)"
  have E2: "eigsys n (\<lambda>i j. Y ! i ! j) (\<lambda>l. - w2 ! l) (\<lambda>i k. Q2 ! i ! k)"
    by (rule eig_decomp_mneg_eigsys[OF Y D2])
  have "real k = (\<Sum>l<n. if - w2 ! l < 0 then 1 else 0)"
    unfolding k by (rule count_negative_unique[OF D E2])
  also have "\<dots> = real (length (filter (\<lambda>x. 0 < x) w2))"
    by (simp add: length_filter_sum eig_decompD(1)[OF D2])
  finally have kpos: "length (filter (\<lambda>x. 0 < x) w2) = k" by simp
  have pos: "0 < w2 ! l \<longleftrightarrow> n - k \<le> l" if "l < n" for l
    using sorted_positive_suffix[OF eig_decompD(3)[OF D2], of l] that
    by (simp add: kpos eig_decompD(1)[OF D2])
  have vm: "is_mat n k v"
    using is_mat_slice_cols[OF eig_decompD(2)[OF D2], of "n - k" "n - 1"] k0 kn by (simp add: v_def e)
  have lws: "length ws = k" using kn by (simp add: ws_def eig_decompD(1)[OF D2])
  have wsm: "ws ! m = w2 ! (n - k + m)" if "m < k" for m
    using that kn by (simp add: ws_def eig_decompD(1)[OF D2])
  have vim: "v ! i ! m = Q2 ! i ! (n - k + m)" if "i < n" "m < k" for i m
    unfolding v_def using slice_cols_nth[OF eig_decompD(2)[OF D2], of "n - k" "n - 1" i m] that k0 kn
    by (simp add: e)
  have S: "spectral_sum ws v = mat_of n n (\<lambda>i j. \<Sum>m<k. v ! i ! m * ws ! m * v ! j ! m)"
    by (rule spectral_sum_eq[OF vm lws k0 n])
  have "psd_add_negative la Y (int k) = Inr (madd Y (spectral_sum ws v))"
    unfolding psd_add_negative_def Let_def len using r n kn
    by (simp add: e ws_def v_def of_nat_diff)
  also have "madd Y (spectral_sum ws v) = mat_of n n (\<lambda>i j. Y ! i ! j + (\<Sum>m<k. v ! i ! m * ws ! m * v ! j ! m))"
    unfolding S by (subst madd_eq[OF Y]) (simp_all cong: mat_of_cong)
  also have "\<dots> = naive_psd_projection w Q"
    unfolding naive_psd_projection_eq[OF D n]
  proof (rule mat_of_cong)
    fix i j assume i: "i < n" and j: "j < n"
    have "(\<Sum>m<k. v ! i ! m * ws ! m * v ! j ! m) = (\<Sum>m<n - (n - k). Q2 ! i ! (n - k + m) * w2 ! (n - k + m) * Q2 ! j ! (n - k + m))"
      using kn by (intro sum.cong) (simp_all add: vim i j wsm)
    also have "\<dots> = (\<Sum>l<n. if n - k \<le> l then Q2 ! i ! l * w2 ! l * Q2 ! j ! l else 0)"
      by (rule sum_tail_indicator) simp
    finally have tail: "(\<Sum>m<k. v ! i ! m * ws ! m * v ! j ! m) =
        (\<Sum>l<n. if n - k \<le> l then Q2 ! i ! l * w2 ! l * Q2 ! j ! l else 0)" .
    have "Y ! i ! j = (\<Sum>l<n. - w2 ! l * Q2 ! i ! l * Q2 ! j ! l)"
      by (rule eigsys_reconstruct[OF E2 i j, symmetric])
    then have "Y ! i ! j + (\<Sum>m<k. v ! i ! m * ws ! m * v ! j ! m) =
        (\<Sum>l<n. - w2 ! l * Q2 ! i ! l * Q2 ! j ! l) + (\<Sum>l<n. if n - k \<le> l then Q2 ! i ! l * w2 ! l * Q2 ! j ! l else 0)"
      by (simp only: tail)
    also have "\<dots> = (\<Sum>l<n. - w2 ! l * Q2 ! i ! l * Q2 ! j ! l + (if n - k \<le> l then Q2 ! i ! l * w2 ! l * Q2 ! j ! l else 0))"
      by (rule sum.distrib[symmetric])
    also have "\<dots> = (\<Sum>l<n. (if - w2 ! l < 0 then 0 else - w2 ! l) * Q2 ! i ! l * Q2 ! j ! l)"
    proof (rule sum.cong[OF refl])
      fix l assume "l \<in> {..<n}"
      then have "0 < w2 ! l \<longleftrightarrow> n - k \<le> l" using pos by simp
      then show "- w2 ! l * Q2 ! i ! l * Q2 ! j ! l + (if n - k \<le> l then Q2 ! i ! l * w2 ! l * Q2 ! j ! l else 0) =
          (if - w2 ! l < 0 then 0 else - w2 ! l) * Q2 ! i ! l * Q2 ! j ! l"
        by auto
    qed
    also have "\<dots> = (\<Sum>k<n. (if w ! k < 0 then 0 else w ! k) * Q ! i ! k * Q ! j ! k)"
      by (rule naive_entry_unique[OF D E2 i j, symmetric])
    finally show "Y ! i ! j + (\<Sum>m<k. v ! i ! m * ws ! m * v ! j ! m) =
        (\<Sum>k<n. (if w ! k < 0 then 0 else w ! k) * Q ! i ! k * Q ! j ! k)" .
  qed
  finally show ?thesis .
qed

lemma naive_no_negative:
  assumes Y: "is_mat n n Y" and D: "eig_decomp n Y w Q" and k: "length (filter (\<lambda>x. x < 0) w) = 0"
  shows "naive_psd_projection w Q = Y"
proof (cases "n = 0")
  case True
  then have "w = []" "Q = []" "Y = []"
    using eig_decompD(1,2)[OF D] Y by (simp_all add: is_mat_def)
  then show ?thesis
    by (simp add: naive_psd_projection_def spectral_sum_def np_dot_def mat_of_def)
next
  case False
  then have n: "0 < n" by simp
  have nn: "\<not> w ! l < 0" if "l < n" for l
    using k that eig_decompD(1)[OF D] by (simp add: filter_empty_conv)
  have "naive_psd_projection w Q = mat_of n n (\<lambda>i j. Y ! i ! j)"
    unfolding naive_psd_projection_eq[OF D n]
  proof (rule mat_of_cong)
    fix i j assume i: "i < n" and j: "j < n"
    have "(\<Sum>k<n. (if w ! k < 0 then 0 else w ! k) * Q ! i ! k * Q ! j ! k) = (\<Sum>k<n. w ! k * Q ! i ! k * Q ! j ! k)"
      by (rule sum.cong[OF refl]) (simp add: nn)
    also have "\<dots> = Y ! i ! j"
      by (rule eigsys_reconstruct[OF eig_decompD(4)[OF D] i j])
    finally show "(\<Sum>k<n. (if w ! k < 0 then 0 else w ! k) * Q ! i ! k * Q ! j ! k) = Y ! i ! j" .
  qed
  then show ?thesis by (simp add: mat_of_self[OF Y])
qed

lemma naive_all_negative:
  assumes D: "eig_decomp n Y w Q" and k: "length (filter (\<lambda>x. x < 0) w) = n" and n: "0 < n"
  shows "naive_psd_projection w Q = np_zeros n n"
proof -
  have "filter (\<lambda>x. x < 0) w = w"
    using k eig_decompD(1)[OF D] by (metis length_filter_less less_irrefl filter_True)
  then have neg: "w ! l < 0" if "l < n" for l
    using that eig_decompD(1)[OF D] by (metis filter_id_conv nth_mem)
  show ?thesis
    unfolding naive_psd_projection_eq[OF D n] np_zeros_eq
    by (rule mat_of_cong) (simp add: neg)
qed

lemma proj_Snp_imp_naive:
  assumes Y: "is_mat n n Y" and ok: "eigh_ok la n Y" and okn: "eigh_ok la n (mneg Y)"
    and D: "eig_decomp n Y w Q"
  shows "proj_Snp_imp la Y = Inr (naive_psd_projection w Q)"
proof -
  have len: "length Y = n" using Y by (simp add: is_mat_def)
  from ok obtain w1 Q1 where D1: "eig_decomp n Y w1 Q1" and r: "eigvals_only la Y = Inr w1"
    unfolding eigh_ok_def by blast
  define k where "k = length (filter (\<lambda>x. x < 0) w)"
  have k1: "length (filter (\<lambda>x. x < 0) w1) = k"
    unfolding k_def by (rule count_negative_decomp[OF D1 D])
  have kn: "k \<le> n" unfolding k_def using eig_decompD(1)[OF D] length_filter_le[of _ w] by simp
  have P: "proj_Snp_imp la Y =
      (if k = 0 then Inr Y
       else if k = n then Inr (np_zeros n n)
       else if int k < int n - int k then psd_add_negative la Y (int k)
       else psd_keep_positive la Y (int k))"
    unfolding proj_Snp_imp_def r bind_f_Inr Let_def len k1 by simp
  consider "k = 0" | "k = n" "0 < k" | "0 < k" "k < n" "int k < int n - int k" | "0 < k" "k < n" "\<not> int k < int n - int k"
    using kn by linarith
  then show ?thesis
  proof cases
    case 1
    then show ?thesis
      using naive_no_negative[OF Y D] by (simp add: P k_def)
  next
    case 2
    then show ?thesis
      using naive_all_negative[OF D] by (simp add: P k_def)
  next
    case 3
    then show ?thesis
      using psd_add_negative_naive[OF Y okn D k_def 3(1) kn] by (simp add: P)
  next
    case 4
    then show ?thesis
      using psd_keep_positive_naive[OF Y ok D k_def 4(2)] by (simp add: P)
  qed
qed

section \<open>A rotation gives an orthonormal eigensystem\<close>

lemma less_2: "(\<forall>k<2. P k) \<longleftrightarrow> P 0 \<and> P (Suc 0)"
  by (auto simp: less_2_cases_iff)

lemma sum_2: "(\<Sum>k<2. f k) = f 0 + (f (Suc 0) :: real)"
  by (simp add: numeral_2_eq_2)

lemma rot_eigsys:
  fixes a b d c s l0 l1 :: real
  assumes cs: "c\<^sup>2 + s\<^sup>2 = 1"
    and e0: "a * c - b * s = l0 * c" "b * c - d * s = - (l0 * s)"
    and e1: "a * s + b * c = l1 * s" "b * s + d * c = l1 * c"
  shows "eigsys 2 (\<lambda>i j. [[a, b], [b, d]] ! i ! j) (\<lambda>k. [l0, l1] ! k) (\<lambda>i k. [[c, s], [- s, c]] ! i ! k)"
  unfolding eigsys_def less_2 sum_2
  using cs e0 e1 by (simp add: power2_eq_square algebra_simps)

section \<open>The two-by-two solver meets the contract\<close>

lemma list2: "length xs = 2 \<Longrightarrow> xs = [xs ! 0, xs ! 1]"
  by (cases xs; cases "tl xs") (auto simp: numeral_2_eq_2)

lemma mat2: "is_mat 2 2 A \<Longrightarrow> A = [[A ! 0 ! 0, A ! 0 ! 1], [A ! 1 ! 0, A ! 1 ! 1]]"
proof -
  assume A: "is_mat 2 2 A"
  then have "length A = 2" "length (A ! 0) = 2" "length (A ! 1) = 2"
    by (simp_all add: is_mat_def list_all_length)
  then show ?thesis using list2[of A] list2[of "A ! 0"] list2[of "A ! 1"] by metis
qed

lemma sym2: "is_sym 2 A \<Longrightarrow> A = [[A ! 0 ! 0, A ! 1 ! 0], [A ! 1 ! 0, A ! 1 ! 1]]"
proof -
  assume A: "is_sym 2 A"
  then have "A ! 0 ! 1 = A ! 1 ! 0" by (simp add: is_sym_iff)
  moreover have "is_mat 2 2 A" using A by (simp add: is_sym_iff)
  ultimately show ?thesis using mat2[of A] by simp
qed

lemma eigh2_eigsys:
  fixes a b d :: real
  defines "r \<equiv> sqrt (((a - d) / 2)\<^sup>2 + b\<^sup>2)"
  defines "t \<equiv> (a - d) / 2 + r"
  defines "N \<equiv> sqrt (b\<^sup>2 + t\<^sup>2)"
  defines "c \<equiv> (if N = 0 then 1 else b / N)"
  defines "s \<equiv> (if N = 0 then 0 else t / N)"
  shows "eigsys 2 (\<lambda>i j. [[a, b], [b, d]] ! i ! j) (\<lambda>k. [(a + d) / 2 - r, (a + d) / 2 + r] ! k)
           (\<lambda>i k. [[c, s], [- s, c]] ! i ! k)"
proof (rule rot_eigsys)
  have r2: "r\<^sup>2 = ((a - d) / 2)\<^sup>2 + b\<^sup>2"
    unfolding r_def by (simp add: real_sqrt_pow2)
  have key: "b * b + t * ((a - d) / 2 - r) = 0"
  proof -
    have "t * ((a - d) / 2 - r) = ((a - d) / 2)\<^sup>2 - r\<^sup>2"
      unfolding t_def by (simp add: power2_eq_square field_simps)
    then show ?thesis using r2 by (simp add: power2_eq_square)
  qed
  have N2: "N\<^sup>2 = b\<^sup>2 + t\<^sup>2"
    unfolding N_def by (simp add: real_sqrt_pow2)
  show "c\<^sup>2 + s\<^sup>2 = 1"
  proof (cases "N = 0")
    case True then show ?thesis by (simp add: c_def s_def)
  next
    case False
    have nz: "N\<^sup>2 \<noteq> 0" using False by simp
    have "c\<^sup>2 + s\<^sup>2 = (b\<^sup>2 + t\<^sup>2) / N\<^sup>2"
      using False by (simp add: c_def s_def power_divide add_divide_distrib)
    also have "\<dots> = N\<^sup>2 / N\<^sup>2" by (simp only: N2)
    also have "\<dots> = 1" using nz by simp
    finally show ?thesis .
  qed
  have num0a: "a * b - b * t = ((a + d) / 2 - r) * b"
    unfolding t_def by (simp add: field_simps)
  have num0b: "b * b - d * t = - (((a + d) / 2 - r) * t)"
  proof -
    have "b * b - d * t + ((a + d) / 2 - r) * t = b * b + t * ((a - d) / 2 - r)"
      by (simp add: field_simps)
    then show ?thesis using key by simp
  qed
  have num1a: "a * t + b * b = ((a + d) / 2 + r) * t"
  proof -
    have "a * t + b * b - ((a + d) / 2 + r) * t = b * b + t * ((a - d) / 2 - r)"
      by (simp add: field_simps)
    then show ?thesis using key by simp
  qed
  have num1b: "b * t + d * b = ((a + d) / 2 + r) * b"
    unfolding t_def by (simp add: field_simps)
  show "a * c - b * s = ((a + d) / 2 - r) * c"
    "b * c - d * s = - (((a + d) / 2 - r) * s)"
    "a * s + b * c = ((a + d) / 2 + r) * s"
    "b * s + d * c = ((a + d) / 2 + r) * c"
  proof -
    show "a * c - b * s = ((a + d) / 2 - r) * c"
    proof (cases "N = 0")
      case True
      then have b0: "b = 0" and t0: "t = 0" using N2 by (auto simp: sum_power2_eq_zero_iff)
      from t0 have r': "r = (d - a) / 2" unfolding t_def by (simp add: field_simps)
      show ?thesis using True b0 by (simp add: c_def s_def r' field_simps)
    next
      case False
      have "a * c - b * s = (a * b - b * t) / N" using False by (simp add: c_def s_def diff_divide_distrib)
      then show ?thesis unfolding num0a using False by (simp add: c_def)
    qed
    show "b * c - d * s = - (((a + d) / 2 - r) * s)"
    proof (cases "N = 0")
      case True
      then have "b = 0" "t = 0" using N2 by (auto simp: sum_power2_eq_zero_iff)
      then show ?thesis using True by (simp add: c_def s_def)
    next
      case False
      have "b * c - d * s = (b * b - d * t) / N" using False by (simp add: c_def s_def diff_divide_distrib)
      then show ?thesis unfolding num0b using False by (simp add: s_def)
    qed
    show "a * s + b * c = ((a + d) / 2 + r) * s"
    proof (cases "N = 0")
      case True
      then have "b = 0" "t = 0" using N2 by (auto simp: sum_power2_eq_zero_iff)
      then show ?thesis using True by (simp add: c_def s_def)
    next
      case False
      have "a * s + b * c = (a * t + b * b) / N" using False by (simp add: c_def s_def add_divide_distrib)
      then show ?thesis unfolding num1a using False by (simp add: s_def)
    qed
    show "b * s + d * c = ((a + d) / 2 + r) * c"
    proof (cases "N = 0")
      case True
      then have b0: "b = 0" and t0: "t = 0" using N2 by (auto simp: sum_power2_eq_zero_iff)
      from t0 have r': "r = (d - a) / 2" unfolding t_def by (simp add: field_simps)
      show ?thesis using True b0 by (simp add: c_def s_def r' field_simps)
    next
      case False
      have "b * s + d * c = (b * t + d * b) / N" using False by (simp add: c_def s_def add_divide_distrib)
      then show ?thesis unfolding num1b using False by (simp add: c_def)
    qed
  qed
qed

lemma eigh2_decomp:
  assumes A: "is_sym 2 A"
  shows "eig_decomp 2 A (eigh2_vals A) (eigh2_vecs A)"
proof -
  let ?a = "A ! 0 ! 0" and ?b = "A ! 1 ! 0" and ?d = "A ! 1 ! 1"
  have A2: "A = [[?a, ?b], [?b, ?d]]" by (rule sym2[OF A])
  have "eigsys 2 (\<lambda>i j. [[?a, ?b], [?b, ?d]] ! i ! j) (\<lambda>k. eigh2_vals A ! k) (\<lambda>i k. eigh2_vecs A ! i ! k)"
    unfolding eigh2_vals_def eigh2_vecs_def Let_def by (rule eigh2_eigsys)
  then have "eigsys 2 (\<lambda>i j. A ! i ! j) (\<lambda>k. eigh2_vals A ! k) (\<lambda>i k. eigh2_vecs A ! i ! k)"
    using A2 by simp
  moreover have "sorted (eigh2_vals A)"
    by (simp add: eigh2_vals_def Let_def)
  moreover have "is_mat 2 2 (eigh2_vecs A)" "length (eigh2_vals A) = 2"
    by (simp_all add: eigh2_vecs_def eigh2_vals_def Let_def is_mat_def)
  ultimately show ?thesis by (simp add: eig_decomp_def)
qed

lemma eigh_2x2_ok:
  assumes A: "is_sym 2 A"
  shows "eigh_ok eigh_2x2 2 A"
proof -
  have m: "is_mat 2 2 A" using A by (simp add: is_sym_iff)
  have D: "eig_decomp 2 A (eigh2_vals A) (eigh2_vecs A)" by (rule eigh2_decomp[OF A])
  have 1: "eigvals_only eigh_2x2 A = Inr (eigh2_vals A)"
    using m by (simp add: eigh_2x2_def)
  have 2: "eigvals_range eigh_2x2 A (int lo) (int hi) =
      Inr (take (hi + 1 - lo) (drop lo (eigh2_vals A)), slice_cols (eigh2_vecs A) lo hi)"
    if "lo \<le> hi" "hi < 2" for lo hi
  proof -
    have "nat (int hi + 1 - int lo) = hi + 1 - lo" using that by linarith
    then show ?thesis using m that by (simp add: eigh_2x2_def)
  qed
  show ?thesis
    unfolding eigh_ok_def using D 1 2 by blast
qed

section \<open>The projection onto the positive semi-definite cone is the clipped eigendecomposition\<close>

lemma naive_psd_projection_sym:
  assumes D: "eig_decomp n A w Q"
  shows "is_sym n (naive_psd_projection w Q)"
proof (cases "n = 0")
  case True
  then have "w = []" "Q = []" using eig_decompD(1,2)[OF D] by (simp_all add: is_mat_def)
  then show ?thesis using True
    by (simp add: naive_psd_projection_def spectral_sum_def np_dot_def mat_of_def is_sym_def is_mat_def)
next
  case False
  then have n: "0 < n" by simp
  show ?thesis
    unfolding naive_psd_projection_eq[OF D n] is_sym_iff
    by (auto intro!: sum.cong)
qed

lemma quad_form_spectral:
  fixes c :: "nat \<Rightarrow> real" and q :: "nat \<Rightarrow> nat \<Rightarrow> real" and x :: "nat \<Rightarrow> real"
  shows "(\<Sum>i<n. \<Sum>j<n. x i * (\<Sum>k<n. c k * q i k * q j k) * x j) = (\<Sum>k<n. c k * (\<Sum>i<n. x i * q i k)\<^sup>2)"
proof -
  have "(\<Sum>i<n. \<Sum>j<n. x i * (\<Sum>k<n. c k * q i k * q j k) * x j) =
        (\<Sum>i<n. \<Sum>j<n. \<Sum>k<n. c k * ((x i * q i k) * (x j * q j k)))"
    by (simp add: sum_distrib_left sum_distrib_right mult_ac)
  also have "\<dots> = (\<Sum>i<n. \<Sum>k<n. \<Sum>j<n. c k * ((x i * q i k) * (x j * q j k)))"
    by (rule sum.cong[OF refl]) (rule sum.swap)
  also have "\<dots> = (\<Sum>k<n. \<Sum>i<n. \<Sum>j<n. c k * ((x i * q i k) * (x j * q j k)))"
    by (rule sum.swap)
  also have "\<dots> = (\<Sum>k<n. c k * (\<Sum>i<n. \<Sum>j<n. (x i * q i k) * (x j * q j k)))"
    by (simp add: sum_distrib_left)
  also have "\<dots> = (\<Sum>k<n. c k * ((\<Sum>i<n. x i * q i k) * (\<Sum>j<n. x j * q j k)))"
    by (simp only: sum_product)
  finally show ?thesis by (simp add: power2_eq_square)
qed

lemma naive_psd_projection_psd:
  assumes D: "eig_decomp n A w Q"
  shows "is_psd n (naive_psd_projection w Q)"
proof (cases "n = 0")
  case True
  then show ?thesis using naive_psd_projection_sym[OF D] by (simp add: is_psd_def quad_form_def)
next
  case False
  then have n: "0 < n" by simp
  have "0 \<le> quad_form n (naive_psd_projection w Q) x" for x
  proof -
    have "quad_form n (naive_psd_projection w Q) x =
        (\<Sum>i<n. \<Sum>j<n. x ! i * (\<Sum>k<n. (if w ! k < 0 then 0 else w ! k) * Q ! i ! k * Q ! j ! k) * x ! j)"
      unfolding quad_form_def naive_psd_projection_eq[OF D n]
      by (intro sum.cong refl) simp
    also have "\<dots> = (\<Sum>k<n. (if w ! k < 0 then 0 else w ! k) * (\<Sum>i<n. x ! i * Q ! i ! k)\<^sup>2)"
      by (rule quad_form_spectral)
    also have "0 \<le> \<dots>"
      by (intro sum_nonneg mult_nonneg_nonneg) auto
    finally show ?thesis .
  qed
  then show ?thesis using naive_psd_projection_sym[OF D] by (simp add: is_psd_def)
qed

lemma psd_eigenvalue_nonneg:
  assumes P: "is_psd n A" and E: "is_eigenpair n A lam x"
  shows "0 \<le> lam"
proof -
  have len: "length x = n" and ev: "\<And>i. i < n \<Longrightarrow> (\<Sum>j<n. A ! i ! j * x ! j) = lam * x ! i"
    using E by (simp_all add: is_eigenpair_def)
  obtain i0 where i0: "i0 < n" "x ! i0 \<noteq> 0" using E by (auto simp: is_eigenpair_def)
  have "quad_form n A x = (\<Sum>i<n. x ! i * (\<Sum>j<n. A ! i ! j * x ! j))"
    unfolding quad_form_def by (simp add: sum_distrib_left mult.assoc)
  also have "\<dots> = (\<Sum>i<n. lam * (x ! i)\<^sup>2)"
    by (rule sum.cong[OF refl]) (simp add: ev power2_eq_square)
  also have "\<dots> = lam * (\<Sum>i<n. (x ! i)\<^sup>2)"
    by (simp add: sum_distrib_left)
  finally have q: "lam * (\<Sum>i<n. (x ! i)\<^sup>2) = quad_form n A x" by simp
  have "0 < (x ! i0)\<^sup>2" using i0 by simp
  also have "(x ! i0)\<^sup>2 \<le> (\<Sum>i<n. (x ! i)\<^sup>2)"
    using member_le_sum[of i0 "{..<n}" "\<lambda>i. (x ! i)\<^sup>2"] i0 by simp
  finally have pos: "0 < (\<Sum>i<n. (x ! i)\<^sup>2)" .
  have "0 \<le> quad_form n A x" using P len by (simp add: is_psd_def)
  then have "0 \<le> lam * (\<Sum>i<n. (x ! i)\<^sup>2)" using q by simp
  then show ?thesis using pos by (simp add: zero_le_mult_iff)
qed

lemma spectral_inner:
  fixes c :: "nat \<Rightarrow> real" and q m :: "nat \<Rightarrow> nat \<Rightarrow> real"
  shows "(\<Sum>i<n. \<Sum>j<n. (\<Sum>k<n. c k * q i k * q j k) * m i j) =
         (\<Sum>k<n. c k * (\<Sum>i<n. \<Sum>j<n. q i k * m i j * q j k))"
proof -
  have "(\<Sum>i<n. \<Sum>j<n. (\<Sum>k<n. c k * q i k * q j k) * m i j) =
        (\<Sum>i<n. \<Sum>j<n. \<Sum>k<n. c k * (q i k * m i j * q j k))"
    by (simp add: sum_distrib_left sum_distrib_right mult_ac)
  also have "\<dots> = (\<Sum>i<n. \<Sum>k<n. \<Sum>j<n. c k * (q i k * m i j * q j k))"
    by (rule sum.cong[OF refl]) (rule sum.swap)
  also have "\<dots> = (\<Sum>k<n. \<Sum>i<n. \<Sum>j<n. c k * (q i k * m i j * q j k))"
    by (rule sum.swap)
  also have "\<dots> = (\<Sum>k<n. c k * (\<Sum>i<n. \<Sum>j<n. q i k * m i j * q j k))"
    by (simp add: sum_distrib_left)
  finally show ?thesis .
qed

lemma sumsq_obtuse:
  fixes C D :: "nat \<Rightarrow> nat \<Rightarrow> real"
  assumes "0 \<le> (\<Sum>i<r. \<Sum>j<c. C i j * D i j)"
  shows "(\<Sum>i<r. \<Sum>j<c. (C i j)\<^sup>2) \<le> (\<Sum>i<r. \<Sum>j<c. (C i j + D i j)\<^sup>2)"
proof -
  have "(\<Sum>i<r. \<Sum>j<c. (C i j + D i j)\<^sup>2) =
        (\<Sum>i<r. \<Sum>j<c. (C i j)\<^sup>2) + 2 * (\<Sum>i<r. \<Sum>j<c. C i j * D i j) + (\<Sum>i<r. \<Sum>j<c. (D i j)\<^sup>2)"
    by (simp add: power2_sum sum.distrib sum_distrib_left algebra_simps)
  moreover have "0 \<le> (\<Sum>i<r. \<Sum>j<c. (D i j)\<^sup>2)"
    by (intro sum_nonneg) simp
  ultimately show ?thesis using assms by simp
qed

lemma naive_psd_projection_nearest:
  assumes Y: "is_mat n n Y" and D: "eig_decomp n Y w Q" and M: "is_psd n M"
  shows "norm_fro (msub Y (naive_psd_projection w Q)) \<le> norm_fro (msub Y M)"
proof (cases "n = 0")
  case True
  then have "Y = []" using Y by (simp add: is_mat_def)
  then show ?thesis by (simp add: msub_def norm_fro_def)
next
  case False
  then have n: "0 < n" by simp
  define q where "q = (\<lambda>i k. Q ! i ! k)"
  define cp where "cp = (\<lambda>k. if w ! k < 0 then 0 else w ! k)"
  define cm where "cm = (\<lambda>k. if w ! k < 0 then - w ! k else 0)"
  define P where "P = (\<lambda>i j. \<Sum>k<n. cp k * q i k * q j k)"
  define N where "N = (\<lambda>i j. \<Sum>k<n. cm k * q i k * q j k)"
  have E: "eigsys n (\<lambda>i j. Y ! i ! j) (\<lambda>k. w ! k) q"
    unfolding q_def by (rule eig_decompD(4)[OF D])
  have Mm: "is_mat n n M" using M by (simp add: is_psd_def is_sym_iff)
  have Pm: "is_mat n n (naive_psd_projection w Q)"
    using naive_psd_projection_sym[OF D] by (simp add: is_sym_iff)
  have Pij: "naive_psd_projection w Q ! i ! j = P i j" if "i < n" "j < n" for i j
    unfolding naive_psd_projection_eq[OF D n] using that by (simp add: P_def cp_def q_def)
  have Yij: "Y ! i ! j = P i j - N i j" if "i < n" "j < n" for i j
  proof -
    have "P i j - N i j = (\<Sum>k<n. (cp k - cm k) * q i k * q j k)"
      by (simp add: P_def N_def sum_subtractf algebra_simps)
    also have "\<dots> = (\<Sum>k<n. w ! k * q i k * q j k)"
      by (rule sum.cong[OF refl]) (simp add: cp_def cm_def)
    also have "\<dots> = Y ! i ! j"
      by (rule eigsys_reconstruct[OF E that])
    finally show ?thesis by simp
  qed
  have cm0: "0 \<le> cm k" for k by (simp add: cm_def)
  have cpm: "cm k * cp k = 0" for k by (simp add: cm_def cp_def)
  have NM: "0 \<le> (\<Sum>i<n. \<Sum>j<n. N i j * (M ! i ! j))"
  proof -
    have "(\<Sum>i<n. \<Sum>j<n. N i j * (M ! i ! j)) = (\<Sum>k<n. cm k * (\<Sum>i<n. \<Sum>j<n. q i k * M ! i ! j * q j k))"
      unfolding N_def by (rule spectral_inner)
    also have "\<dots> = (\<Sum>k<n. cm k * quad_form n M (map (\<lambda>i. q i k) [0..<n]))"
      unfolding quad_form_def by (intro sum.cong refl) simp
    also have "0 \<le> \<dots>"
      using M by (intro sum_nonneg mult_nonneg_nonneg cm0) (simp add: is_psd_def)
    finally show ?thesis .
  qed
  have NP: "(\<Sum>i<n. \<Sum>j<n. N i j * P i j) = 0"
  proof -
    have "(\<Sum>i<n. \<Sum>j<n. N i j * P i j) = (\<Sum>k<n. cm k * (\<Sum>i<n. \<Sum>j<n. q i k * P i j * q j k))"
      unfolding N_def by (rule spectral_inner)
    also have "\<dots> = (\<Sum>k<n. cm k * cp k)"
    proof (rule sum.cong[OF refl])
      fix k assume "k \<in> {..<n}"
      then have k: "k < n" by simp
      have "(\<Sum>i<n. \<Sum>j<n. q i k * P i j * q j k) = (\<Sum>l<n. cp l * (\<Sum>i<n. q i k * q i l)\<^sup>2)"
        unfolding P_def by (rule quad_form_spectral)
      also have "\<dots> = (\<Sum>l<n. cp l * (if l = k then 1 else 0))"
        by (rule sum.cong[OF refl]) (auto simp: eigsysD(2)[OF E] k)
      also have "\<dots> = cp k"
        by (rule sum_delta_right[OF k])
      finally show "cm k * (\<Sum>i<n. \<Sum>j<n. q i k * P i j * q j k) = cm k * cp k" by simp
    qed
    also have "\<dots> = 0" by (simp add: cpm)
    finally show ?thesis .
  qed
  have "(\<Sum>i<n. \<Sum>j<n. (- N i j) * (P i j - M ! i ! j)) =
        (\<Sum>i<n. \<Sum>j<n. N i j * (M ! i ! j)) - (\<Sum>i<n. \<Sum>j<n. N i j * P i j)"
    by (simp add: sum_subtractf algebra_simps)
  then have inner: "0 \<le> (\<Sum>i<n. \<Sum>j<n. (- N i j) * (P i j - M ! i ! j))"
    using NM NP by simp
  have 1: "sumsq n n (msub Y (naive_psd_projection w Q)) = (\<Sum>i<n. \<Sum>j<n. (- N i j)\<^sup>2)"
    unfolding sumsq_def by (intro sum.cong refl) (simp add: msub_nth[OF Y Pm] Pij Yij)
  have 2: "sumsq n n (msub Y M) = (\<Sum>i<n. \<Sum>j<n. (- N i j + (P i j - M ! i ! j))\<^sup>2)"
    unfolding sumsq_def by (intro sum.cong refl) (simp add: msub_nth[OF Y Mm] Yij algebra_simps)
  have "sumsq n n (msub Y (naive_psd_projection w Q)) \<le> sumsq n n (msub Y M)"
    unfolding 1 2 by (rule sumsq_obtuse[OF inner])
  then show ?thesis
    using Y Pm Mm by (simp add: norm_fro_eq[of n n])
qed

text \<open>
  Claim C3. Under the solver's contract on \<open>Y\<close> and \<open>-Y\<close>, \<open>proj_Snp_imp\<close> returns what a
  naive full eigendecomposition of \<open>Y\<close> with the negative eigenvalues clipped to zero gives,
  whichever full decomposition is taken. That matrix is symmetric positive semi-definite
  and no positive semi-definite matrix is nearer to \<open>Y\<close> in Frobenius norm. The two branches
  that compute eigenpairs return the same matrix. With no negative eigenvalue the input
  itself is returned, with only negative eigenvalues the zero matrix.
\<close>

theorem proj_Snp_imp_refines_naive:
  assumes "is_sym n Y" and "eigh_ok la n Y" and "eigh_ok la n (mneg Y)" and "eig_decomp n Y w Q"
  shows "proj_Snp_imp la Y = Inr (naive_psd_projection w Q) \<and>
         is_psd n (naive_psd_projection w Q) \<and>
         (\<forall>M. is_psd n M \<longrightarrow>
            norm_fro (msub Y (naive_psd_projection w Q)) \<le> norm_fro (msub Y M)) \<and>
         (0 < length (filter (\<lambda>x. x < 0) w) \<and> length (filter (\<lambda>x. x < 0) w) < n \<longrightarrow>
            psd_add_negative la Y (int (length (filter (\<lambda>x. x < 0) w))) =
            psd_keep_positive la Y (int (length (filter (\<lambda>x. x < 0) w)))) \<and>
         (length (filter (\<lambda>x. x < 0) w) = 0 \<longrightarrow> proj_Snp_imp la Y = Inr Y) \<and>
         (length (filter (\<lambda>x. x < 0) w) = n \<longrightarrow> proj_Snp_imp la Y = Inr (np_zeros n n))"
proof -
  have Y: "is_mat n n Y" using assms(1) by (simp add: is_sym_iff)
  note main = proj_Snp_imp_naive[OF Y assms(2,3,4)]
  have "psd_add_negative la Y (int k) = psd_keep_positive la Y (int k)"
    if "k = length (filter (\<lambda>x. x < 0) w)" "0 < k" "k < n" for k
    using psd_add_negative_naive[OF Y assms(3,4) that(1,2)] psd_keep_positive_naive[OF Y assms(2,4) that(1,3)] that(3)
    by simp
  moreover have "proj_Snp_imp la Y = Inr Y" if "length (filter (\<lambda>x. x < 0) w) = 0"
    using main naive_no_negative[OF Y assms(4) that] by simp
  moreover have "proj_Snp_imp la Y = Inr (np_zeros n n)" if "length (filter (\<lambda>x. x < 0) w) = n"
  proof (cases "n = 0")
    case True
    then show ?thesis using main naive_no_negative[OF Y assms(4)] that Y
      by (simp add: np_zeros_def is_mat_def)
  next
    case False
    then show ?thesis using main naive_all_negative[OF assms(4) that] by simp
  qed
  ultimately show ?thesis
    using main naive_psd_projection_psd[OF assms(4)] naive_psd_projection_nearest[OF Y assms(4)]
    by blast
qed

theorem proj_Snp_imp_refines_naive_witness:
  "is_sym 2 [[0, 1], [1, 0]] \<and>
   proj_Snp_imp eigh_2x2 [[0, 1], [1, 0]] =
     Inr (naive_psd_projection (eigh2_vals [[0, 1], [1, 0]]) (eigh2_vecs [[0, 1], [1, 0]])) \<and>
   is_psd 2 (naive_psd_projection (eigh2_vals [[0, 1], [1, 0]]) (eigh2_vecs [[0, 1], [1, 0]]))"
proof -
  have s: "is_sym 2 [[0, 1], [1, 0]]" by (simp add: is_sym_def is_mat_def upt_2)
  have sn: "is_sym 2 (mneg [[0, 1], [1, 0]])" by (simp add: is_sym_def is_mat_def upt_2 mneg_def)
  show ?thesis
    using proj_Snp_imp_refines_naive[OF s eigh_2x2_ok[OF s] eigh_2x2_ok[OF sn] eigh2_decomp[OF s]] s
    by simp
qed

section \<open>Symmetry is preserved by the matrix operations\<close>

lemma map_map_eq: "is_mat r c A \<Longrightarrow> map (map f) A = mat_of r c (\<lambda>i j. f (A ! i ! j))"
  by (rule mat_eqI[of r c]) (auto simp: is_mat_def list_all_length)

lemma is_symI: "is_mat n n A \<Longrightarrow> (\<And>i j. i < n \<Longrightarrow> j < n \<Longrightarrow> A ! i ! j = A ! j ! i) \<Longrightarrow> is_sym n A"
  by (simp add: is_sym_iff)

lemma is_symD: "is_sym n A \<Longrightarrow> is_mat n n A" "is_sym n A \<Longrightarrow> i < n \<Longrightarrow> j < n \<Longrightarrow> A ! i ! j = A ! j ! i"
  by (simp_all add: is_sym_iff)

lemma is_sym_madd: "is_sym n A \<Longrightarrow> is_sym n B \<Longrightarrow> is_sym n (madd A B)"
  by (rule is_symI) (auto simp: madd_nth[of n n] is_symD)

lemma is_sym_msub: "is_sym n A \<Longrightarrow> is_sym n B \<Longrightarrow> is_sym n (msub A B)"
  by (rule is_symI) (auto simp: msub_nth[of n n] is_symD)

lemma is_sym_mneg: "is_sym n A \<Longrightarrow> is_sym n (mneg A)"
  by (rule is_symI) (auto simp: mneg_eq[of n n] is_symD)

lemma is_sym_map: "is_sym n A \<Longrightarrow> is_sym n (map (map f) A)"
  by (rule is_symI) (auto simp: map_map_eq[of n n] is_symD)

lemma is_sym_mean3: "is_sym n A \<Longrightarrow> is_sym n B \<Longrightarrow> is_sym n C \<Longrightarrow> is_sym n (mean3 A B C)"
  unfolding mean3_def by (intro is_sym_map is_sym_madd)

lemma is_sym_proj_positive: "is_sym n A \<Longrightarrow> is_sym n (proj_positive A t)"
  unfolding proj_positive_def by (rule is_sym_map)

lemma is_sym_identity: "is_sym n (np_identity n)"
  by (rule is_symI) (auto simp: np_identity_def)

lemma is_sym_zeros: "is_sym n (np_zeros n n)"
  by (rule is_symI) (auto simp: np_zeros_eq)

lemma is_psd_identity: "is_psd n (np_identity n)"
proof -
  have "quad_form n (np_identity n) x = (\<Sum>i<n. (x ! i)\<^sup>2)" for x
  proof -
    have "quad_form n (np_identity n) x = (\<Sum>i<n. \<Sum>j<n. (x ! i * x ! i) * (if j = i then 1 else 0))"
      unfolding quad_form_def by (intro sum.cong refl) (auto simp: np_identity_def)
    also have "\<dots> = (\<Sum>i<n. x ! i * x ! i)"
      by (rule sum.cong[OF refl]) (simp add: sum_delta_right)
    finally show ?thesis by (simp add: power2_eq_square)
  qed
  then show ?thesis
    by (simp add: is_psd_def is_sym_identity sum_nonneg)
qed

lemma mean3_nth:
  assumes "is_mat n n A" "is_mat n n B" "is_mat n n C" "i < n" "j < n"
  shows "mean3 A B C ! i ! j = (A ! i ! j + B ! i ! j + C ! i ! j) / 3"
  using assms by (simp add: mean3_def map_map_eq[of n n] madd_nth[of n n])

lemma proj_Snp_imp_psd:
  assumes Y: "is_sym n Y" and la: "solver_ok la n"
  shows "\<exists>Z. proj_Snp_imp la Y = Inr Z \<and> is_psd n Z"
proof -
  have ok: "eigh_ok la n Y" using la Y by (simp add: solver_ok_def)
  have okn: "eigh_ok la n (mneg Y)" using la is_sym_mneg[OF Y] by (simp add: solver_ok_def)
  from ok obtain w Q where D: "eig_decomp n Y w Q" unfolding eigh_ok_def by blast
  show ?thesis
    using proj_Snp_imp_naive[OF is_symD(1)[OF Y] ok okn D] naive_psd_projection_psd[OF D] by blast
qed

lemma duals_cancel_step:
  assumes m: "is_mat n n U" "is_mat n n V" "is_mat n n W" "is_mat n n X" "is_mat n n Y" "is_mat n n Z"
    and z: "madd (madd U V) W = np_zeros n n"
  shows "madd (madd (msub (madd U X) (mean3 X Y Z)) (msub (madd V Y) (mean3 X Y Z))) (msub (madd W Z) (mean3 X Y Z))
           = np_zeros n n"
proof -
  have M: "is_mat n n (mean3 X Y Z)"
    using m by (simp add: mean3_def map_map_eq[of n n])
  have uvw: "U ! i ! j + V ! i ! j + W ! i ! j = 0" if "i < n" "j < n" for i j
  proof -
    have "madd (madd U V) W ! i ! j = U ! i ! j + V ! i ! j + W ! i ! j"
      using m that by (simp add: madd_nth[of n n])
    then show ?thesis using that by (simp add: z np_zeros_eq)
  qed
  show ?thesis
  proof (rule mat_eqI[of n n])
    show "is_mat n n (madd (madd (msub (madd U X) (mean3 X Y Z)) (msub (madd V Y) (mean3 X Y Z))) (msub (madd W Z) (mean3 X Y Z)))"
      using m M by simp
    show "is_mat n n (np_zeros n n)" by (simp add: np_zeros_eq)
  next
    fix i j assume ij: "i < n" "j < n"
    have "madd (madd (msub (madd U X) (mean3 X Y Z)) (msub (madd V Y) (mean3 X Y Z))) (msub (madd W Z) (mean3 X Y Z)) ! i ! j
        = (U ! i ! j + V ! i ! j + W ! i ! j) + (X ! i ! j + Y ! i ! j + Z ! i ! j) - 3 * (mean3 X Y Z ! i ! j)"
      using m M ij by (simp add: madd_nth[of n n] msub_nth[of n n])
    also have "\<dots> = 0" using uvw[OF ij] m ij by (simp add: mean3_nth[of n])
    finally show "madd (madd (msub (madd U X) (mean3 X Y Z)) (msub (madd V Y) (mean3 X Y Z))) (msub (madd W Z) (mean3 X Y Z)) ! i ! j
        = np_zeros n n ! i ! j"
      using ij by (simp add: np_zeros_eq)
  qed
qed

section \<open>One iteration keeps the invariant\<close>

lemma bind_f_eq_Inr: "bind_f m f = Inr b \<longleftrightarrow> (\<exists>a. m = Inr a \<and> f a = Inr b)"
  by (cases m) (simp_all add: bind_f_def)

lemma mdiv_Inr: "mdiv A c = Inr B \<Longrightarrow> B = map (map (\<lambda>a. a / c)) A"
  by (auto simp: mdiv_def split: if_splits)

lemma admm_iteration_Inr:
  assumes "admm_iteration la R K rho s = Inr s'"
  shows "\<exists>scaled. mdiv R rho = Inr scaled \<and>
           proj_lin_Hsymmetric (madd (msub (st_Xbar s) (st_U s)) scaled) K = Inr (st_X s') \<and>
           st_Y s' = proj_positive (msub (st_Xbar s) (st_V s)) 0 \<and>
           proj_Snp_imp la (msub (st_Xbar s) (st_W s)) = Inr (st_Z s') \<and>
           st_Xbar s' = mean3 (st_X s') (st_Y s') (st_Z s') \<and>
           st_U s' = msub (madd (st_U s) (st_X s')) (st_Xbar s') \<and>
           st_V s' = msub (madd (st_V s) (st_Y s')) (st_Xbar s') \<and>
           st_W s' = msub (madd (st_W s) (st_Z s')) (st_Xbar s') \<and>
           st_res_dual s' = Some (rho * norm_fro (msub (st_Xbar s') (st_Xbar s))) \<and>
           st_res_primal s' = Some (norm_stack (msub (st_X s') (st_Xbar s')) (msub (st_Z s') (st_Xbar s'))
                                       (msub (st_Y s') (st_Xbar s')))"
  using assms unfolding admm_iteration_def Let_def bind_f_eq_Inr by auto

lemma admm_iteration_inv:
  assumes n: "2 \<le> n" and R: "is_sym n R" and la: "solver_ok la n" and s: "state_inv n s"
    and it: "admm_iteration la R K rho s = Inr s'"
  shows "state_inv n s'"
proof -
  from admm_iteration_Inr[OF it] obtain scaled where
    sc: "mdiv R rho = Inr scaled"
    and X: "proj_lin_Hsymmetric (madd (msub (st_Xbar s) (st_U s)) scaled) K = Inr (st_X s')"
    and Y: "st_Y s' = proj_positive (msub (st_Xbar s) (st_V s)) 0"
    and Z: "proj_Snp_imp la (msub (st_Xbar s) (st_W s)) = Inr (st_Z s')"
    and Xbar: "st_Xbar s' = mean3 (st_X s') (st_Y s') (st_Z s')"
    and U: "st_U s' = msub (madd (st_U s) (st_X s')) (st_Xbar s')"
    and V: "st_V s' = msub (madd (st_V s) (st_Y s')) (st_Xbar s')"
    and W: "st_W s' = msub (madd (st_W s) (st_Z s')) (st_Xbar s')"
    by blast
  have sym: "is_sym n (st_U s)" "is_sym n (st_V s)" "is_sym n (st_W s)" "is_sym n (st_Xbar s)"
    and z: "madd (madd (st_U s) (st_V s)) (st_W s) = np_zeros n n"
    using s by (simp_all add: state_inv_def state_sym_def)
  have "is_sym n scaled" using mdiv_Inr[OF sc] R by (simp add: is_sym_map)
  then have arg: "is_sym n (madd (msub (st_Xbar s) (st_U s)) scaled)"
    using sym by (intro is_sym_madd is_sym_msub)
  have "st_X s' = hsym_closed n (madd (msub (st_Xbar s) (st_U s)) scaled) K"
    using X proj_lin_Hsymmetric_closed[OF is_symD(1)[OF arg] n, of K] by simp
  then have sX: "is_sym n (st_X s')" using proj_lin_Hsymmetric_sym[OF arg] by simp
  have sY: "is_sym n (st_Y s')" unfolding Y using sym by (intro is_sym_proj_positive is_sym_msub)
  have "is_sym n (msub (st_Xbar s) (st_W s))" using sym by (intro is_sym_msub)
  from proj_Snp_imp_psd[OF this la] Z have pZ: "is_psd n (st_Z s')" by auto
  then have sZ: "is_sym n (st_Z s')" by (simp add: is_psd_def)
  have sXbar: "is_sym n (st_Xbar s')" unfolding Xbar using sX sY sZ by (rule is_sym_mean3)
  have sU: "is_sym n (st_U s')" unfolding U using sym sX sXbar by (intro is_sym_madd is_sym_msub)
  have sV: "is_sym n (st_V s')" unfolding V using sym sY sXbar by (intro is_sym_madd is_sym_msub)
  have sW: "is_sym n (st_W s')" unfolding W using sym sZ sXbar by (intro is_sym_madd is_sym_msub)
  have "madd (madd (st_U s') (st_V s')) (st_W s') = np_zeros n n"
    unfolding U V W Xbar
    using sym sX sY sZ z by (intro duals_cancel_step) (simp_all add: is_symD(1))
  then show ?thesis
    using sX sY sZ sU sV sW sXbar pZ by (simp add: state_inv_def state_sym_def)
qed

lemma admm_iteration_returns:
  assumes n: "2 \<le> n" and R: "is_sym n R" and la: "solver_ok la n" and s: "state_inv n s"
    and rho: "rho \<noteq> 0"
  shows "\<exists>s'. admm_iteration la R K rho s = Inr s'"
proof -
  have sym: "is_sym n (st_U s)" "is_sym n (st_V s)" "is_sym n (st_W s)" "is_sym n (st_Xbar s)"
    using s by (simp_all add: state_inv_def state_sym_def)
  have "is_sym n (map (map (\<lambda>a. a / rho)) R)" using R by (rule is_sym_map)
  then have arg: "is_sym n (madd (msub (st_Xbar s) (st_U s)) (map (map (\<lambda>a. a / rho)) R))"
    using sym by (intro is_sym_madd is_sym_msub)
  have X: "proj_lin_Hsymmetric (madd (msub (st_Xbar s) (st_U s)) (map (map (\<lambda>a. a / rho)) R)) K =
      Inr (hsym_closed n (madd (msub (st_Xbar s) (st_U s)) (map (map (\<lambda>a. a / rho)) R)) K)"
    by (rule proj_lin_Hsymmetric_closed[OF is_symD(1)[OF arg] n])
  have "is_sym n (msub (st_Xbar s) (st_W s))" using sym by (intro is_sym_msub)
  from proj_Snp_imp_psd[OF this la] obtain Z where Z: "proj_Snp_imp la (msub (st_Xbar s) (st_W s)) = Inr Z"
    by blast
  show ?thesis
    unfolding admm_iteration_def Let_def using rho by (simp add: X Z)
qed

lemma admm_init_inv: "state_inv n (admm_init n)"
proof -
  have "madd (madd (np_zeros n n) (np_zeros n n)) (np_zeros n n) = np_zeros n n"
    by (rule mat_eqI[of n n]) (simp_all add: np_zeros_eq madd_nth[of n n])
  then show ?thesis
    by (simp add: state_inv_def state_sym_def admm_init_def is_sym_identity is_sym_zeros
        is_psd_identity is_sym_mean3)
qed

lemma admm_iterate_front:
  "admm_iteration la R K rho s = Inr s1 \<Longrightarrow>
     admm_iterate la R K rho (Suc m) s = admm_iterate la R K rho m s1"
  by (induction m) simp_all

lemma admm_iterate_inv:
  assumes n: "2 \<le> n" and R: "is_sym n R" and la: "solver_ok la n"
  shows "state_inv n s \<Longrightarrow> admm_iterate la R K rho m s = Inr s' \<Longrightarrow> state_inv n s'"
proof (induction m arbitrary: s')
  case 0 then show ?case by simp
next
  case (Suc m)
  from Suc.prems(2) obtain sm where sm: "admm_iterate la R K rho m s = Inr sm"
    and st: "admm_iteration la R K rho sm = Inr s'"
    by (auto simp: bind_f_eq_Inr)
  show ?case
    by (rule admm_iteration_inv[OF n R la Suc.IH[OF Suc.prems(1) sm] st])
qed


lemma admm_loop_iterate:
  "admm_loop la R K B rho i s = Inr (it, s') \<Longrightarrow>
     i \<le> it \<and> (it \<le> B \<or> it = i) \<and> admm_iterate la R K rho (nat (it - i)) s = Inr s'"
proof (induction la R K B rho i s rule: admm_loop.induct)
  case (1 la R K B rho i s)
  show ?case
  proof (cases "i < B")
    case False
    then show ?thesis using "1.prems" by simp
  next
    case True
    then obtain s1 where s1: "admm_iteration la R K rho s = Inr s1"
      using "1.prems" by (cases "admm_iteration la R K rho s") simp_all
    show ?thesis
    proof (cases "keep_going s1")
      case False
      then have "it = i + 1" "s' = s1" using "1.prems" True s1 by simp_all
      then show ?thesis using True s1 by (simp add: bind_f_def)
    next
      case kg: True
      then have loop: "admm_loop la R K B rho (i + 1) s1 = Inr (it, s')"
        using "1.prems" True s1 by simp
      from "1.IH"[OF True s1 _ loop] kg
      have ih: "i + 1 \<le> it" "it \<le> B \<or> it = i + 1" "admm_iterate la R K rho (nat (it - (i + 1))) s1 = Inr s'"
        by simp_all
      have "nat (it - i) = Suc (nat (it - (i + 1)))" using ih(1) by linarith
      then have "admm_iterate la R K rho (nat (it - i)) s = Inr s'"
        using admm_iterate_front[OF s1] ih(3) by simp
      then show ?thesis using ih(1,2) True by auto
    qed
  qed
qed

section \<open>The loop, the run and the returned matrix\<close>

lemma admm_loop_returns:
  assumes "2 \<le> n" and "is_sym n R" and "solver_ok la n" and "rho \<noteq> 0" and "state_inv n s"
  shows "\<exists>it s'. admm_loop la R K B rho i s = Inr (it, s')"
  using assms
proof (induction la R K B rho i s rule: admm_loop.induct)
  case (1 la R K B rho i s)
  show ?case
  proof (cases "i < B")
    case False
    then show ?thesis by simp
  next
    case True
    from admm_iteration_returns[OF "1.prems"(1,2,3,5,4)] obtain s1
      where s1: "admm_iteration la R K rho s = Inr s1" by blast
    have inv1: "state_inv n s1"
      by (rule admm_iteration_inv[OF "1.prems"(1,2,3,5) s1])
    show ?thesis
    proof (cases "keep_going s1")
      case False
      then show ?thesis using True s1 by simp
    next
      case kg: True
      from "1.IH"[OF True s1 _ "1.prems"(1,2,3,4) inv1] kg
      obtain it s' where "admm_loop la R K B rho (i + 1) s1 = Inr (it, s')" by auto
      then show ?thesis using True s1 kg by simp
    qed
  qed
qed

lemma admm_loop_progress:
  assumes "admm_loop la R K B rho i s = Inr (it, s')" and "i < B"
  shows "i < it"
proof -
  obtain s1 where s1: "admm_iteration la R K rho s = Inr s1"
    using assms by (cases "admm_iteration la R K rho s") simp_all
  show ?thesis
  proof (cases "keep_going s1")
    case False
    then show ?thesis using assms s1 by simp
  next
    case True
    then have "admm_loop la R K B rho (i + 1) s1 = Inr (it, s')" using assms s1 by simp
    from admm_loop_iterate[OF this] show ?thesis by simp
  qed
qed

lemma admm_iterate_Suc_res:
  assumes "admm_iterate la R K rho (Suc m) s = Inr s'"
  shows "\<exists>rp rd. st_res_primal s' = Some rp \<and> st_res_dual s' = Some rd"
proof -
  from assms obtain sm where "admm_iteration la R K rho sm = Inr s'"
    by (auto simp: bind_f_eq_Inr)
  from admm_iteration_Inr[OF this] show ?thesis by blast
qed

lemma admm_loop_res:
  assumes "admm_loop la R K B rho i s = Inr (it, s')" and "i < B"
  shows "\<exists>rp rd. st_res_primal s' = Some rp \<and> st_res_dual s' = Some rd"
proof -
  have lt: "i < it" by (rule admm_loop_progress[OF assms])
  then obtain m where m: "nat (it - i) = Suc m" by (metis Suc_pred' zero_less_nat_eq diff_gt_0_iff_gt)
  from admm_loop_iterate[OF assms(1)] have "admm_iterate la R K rho (Suc m) s = Inr s'"
    by (simp add: m)
  then show ?thesis by (rule admm_iterate_Suc_res)
qed

lemma pecok_admm_run_Inr:
  assumes "pecok_admm_run la R0 K B rho = Inr (it, s')"
  shows "\<exists>R. mdiv R0 (norm_fro R0) = Inr R \<and>
           admm_loop la R K B rho 0 (admm_init (length R0)) = Inr (it, s')"
  using assms unfolding pecok_admm_run_def Let_def bind_f_eq_Inr by blast

lemma pecok_admm_Inr:
  assumes "pecok_admm la R0 K B rho = Inr Z"
  shows "\<exists>it s'. pecok_admm_run la R0 K B rho = Inr (it, s') \<and> st_Z s' = Z"
  using assms unfolding pecok_admm_def bind_f_eq_Inr
  by (auto split: option.splits)

lemma pecok_admm_run_inv:
  assumes n: "2 \<le> n" and R0: "is_sym n R0" and la: "solver_ok la n"
    and run: "pecok_admm_run la R0 K B rho = Inr (it, s')"
  shows "state_inv n s'"
proof -
  from pecok_admm_run_Inr[OF run] obtain R where R: "mdiv R0 (norm_fro R0) = Inr R"
    and loop: "admm_loop la R K B rho 0 (admm_init (length R0)) = Inr (it, s')" by blast
  have sR: "is_sym n R" using mdiv_Inr[OF R] R0 by (simp add: is_sym_map)
  have len: "length R0 = n" using R0 by (simp add: is_sym_iff is_mat_def)
  from admm_loop_iterate[OF loop] have "admm_iterate la R K rho (nat (it - 0)) (admm_init n) = Inr s'"
    by (simp add: len)
  then show ?thesis
    by (rule admm_iterate_inv[OF n sR la admm_init_inv])
qed

lemma pecok_admm_run_returns:
  assumes n: "2 \<le> n" and R0: "is_sym n R0" and la: "solver_ok la n"
    and nz: "norm_fro R0 \<noteq> 0" and rho: "rho \<noteq> 0"
  shows "\<exists>it s'. pecok_admm_run la R0 K B rho = Inr (it, s')"
proof -
  have sR: "is_sym n (map (map (\<lambda>a. a / norm_fro R0)) R0)" using R0 by (rule is_sym_map)
  have len: "length R0 = n" using R0 by (simp add: is_sym_iff is_mat_def)
  show ?thesis
    unfolding pecok_admm_run_def Let_def len
    using nz admm_loop_returns[OF n sR la rho admm_init_inv] by (simp del: admm_loop.simps)
qed

lemma pecok_admm_returns:
  assumes n: "2 \<le> n" and R0: "is_sym n R0" and la: "solver_ok la n"
    and nz: "norm_fro R0 \<noteq> 0" and rho: "rho \<noteq> 0" and B: "1 \<le> B"
  shows "\<exists>Z. pecok_admm la R0 K B rho = Inr Z"
proof -
  from pecok_admm_run_returns[OF n R0 la nz rho] obtain it s'
    where run: "pecok_admm_run la R0 K B rho = Inr (it, s')" by blast
  from pecok_admm_run_Inr[OF run] obtain R where
    loop: "admm_loop la R K B rho 0 (admm_init (length R0)) = Inr (it, s')" by blast
  from admm_loop_res[OF loop] B obtain rp rd where "st_res_primal s' = Some rp" "st_res_dual s' = Some rd"
    by auto
  then show ?thesis
    unfolding pecok_admm_def by (simp add: run)
qed

lemma norm_stack_eq:
  "norm_stack A B C = sqrt ((\<Sum>a\<leftarrow>concat A. a\<^sup>2) + (\<Sum>a\<leftarrow>concat B. a\<^sup>2) + (\<Sum>a\<leftarrow>concat C. a\<^sup>2))"
  by (simp add: norm_stack_def norm_fro_def)

lemma norm_stack_swap: "norm_stack A B C = norm_stack A C B"
  by (simp add: norm_stack_eq add_ac)

section \<open>The worked run, evaluated\<close>

lemmas np_defs = np_sum_axis1_def np_trace_def ncols_def np_repeat_def np_reshape_def np_diag_def
  np_diagonal_def np_T_def mat_of_def madd_def msub_def np_identity_def np_zeros_def mean3_def
  proj_positive_def norm_fro_def norm_stack_def

lemma sqrt_ninth: "sqrt (1 / 9) = 1 / 3"
  by (rule real_sqrt_unique) (simp_all add: power2_eq_square)

lemma ex_init: "admm_init 2 =
    \<lparr>st_X = [[1, 0], [0, 1]], st_Y = [[1, 0], [0, 1]], st_Z = [[1, 0], [0, 1]],
     st_U = [[0, 0], [0, 0]], st_V = [[0, 0], [0, 0]], st_W = [[0, 0], [0, 0]],
     st_Xbar = [[1, 0], [0, 1]], st_res_dual = None, st_res_primal = None\<rparr>"
  by (simp add: admm_init_def np_defs upt_2 numeral_2_eq_2)

lemma ex_hsym1: "proj_lin_Hsymmetric [[2, 0], [0, 1]] 1 = Inr [[1 / 2, 1 / 2], [1 / 2, 1 / 2]]"
  by (simp add: proj_lin_Hsymmetric_def operator_lstarllstarinv_sym_def operator_lstarllstarinv_def
      np_defs upt_2 Let_def)

lemma ex_hsym2:
  "proj_lin_Hsymmetric [[13 / 6, - (1 / 6)], [- (1 / 6), 7 / 6]] 1 = Inr [[1 / 2, 1 / 2], [1 / 2, 1 / 2]]"
  by (simp add: proj_lin_Hsymmetric_def operator_lstarllstarinv_sym_def operator_lstarllstarinv_def
      np_defs upt_2 Let_def)

lemma ex_snp1: "proj_Snp_imp eigh_2x2 [[1, 0], [0, 1]] = Inr [[1, 0], [0, 1]]"
  by (simp add: proj_Snp_imp_def eigh_2x2_def eigh2_vals_def is_mat_def Let_def)

lemma ex_snp2:
  "proj_Snp_imp eigh_2x2 [[2 / 3, 1 / 3], [1 / 3, 2 / 3]] = Inr [[2 / 3, 1 / 3], [1 / 3, 2 / 3]]"
  by (simp add: proj_Snp_imp_def eigh_2x2_def eigh2_vals_def is_mat_def Let_def power2_eq_square
      sqrt_ninth)

lemma ex_iteration1: "admm_iteration eigh_2x2 ex_R 1 1 (admm_init 2) = Inr ex_state1"
  unfolding ex_init ex_R_def ex_state1_def
  by (simp add: admm_iteration_def ex_hsym1 ex_snp1 np_defs Let_def power2_eq_square)

lemma ex_iteration2: "admm_iteration eigh_2x2 ex_R 1 1 ex_state1 = Inr ex_state2"
  unfolding ex_R_def ex_state1_def ex_state2_def
  by (simp add: admm_iteration_def ex_hsym2 ex_snp2 np_defs Let_def power2_eq_square)

lemma ex_keep_going1: "keep_going ex_state1"
proof -
  have "sqrt 2 \<le> 2" using real_sqrt_le_mono[of 2 4] by simp
  then have "epsilon * (sqrt 2 + sqrt 2 + sqrt 2) < 1 / 3"
    by (simp add: epsilon_def)
  then show ?thesis
    by (simp add: ex_state1_def keep_going_def is_dual_high_def is_primal_high_def norm_fro_def sqrt_ninth)
qed

lemma ex_normalise: "mdiv ex_R (norm_fro ex_R) = Inr ex_R"
  by (simp add: ex_R_def norm_fro_def mdiv_def)

lemma ex_R_sym: "is_sym 2 ex_R"
  by (simp add: ex_R_def is_sym_def is_mat_def upt_2)

lemma ex_R_norm: "norm_fro ex_R \<noteq> 0"
  by (simp add: ex_R_def norm_fro_def)

lemma eigh_2x2_solver_ok: "solver_ok eigh_2x2 2"
  by (simp add: solver_ok_def eigh_2x2_ok)

lemma ex_R_length: "length ex_R = 2"
  by (simp add: ex_R_def)

lemma ex_run_loop:
  "pecok_admm_run eigh_2x2 ex_R K B rho = admm_loop eigh_2x2 ex_R K B rho 0 (admm_init 2)"
  unfolding pecok_admm_run_def Let_def ex_normalise bind_f_Inr ex_R_length by (rule refl)

lemma ex_run0: "pecok_admm_run eigh_2x2 ex_R 1 0 1 = Inr (0, admm_init 2)"
  unfolding ex_run_loop by simp

lemma ex_run1: "pecok_admm_run eigh_2x2 ex_R 1 1 1 = Inr (1, ex_state1)"
  unfolding ex_run_loop by (simp add: ex_iteration1)

lemma ex_run2: "pecok_admm_run eigh_2x2 ex_R 1 2 1 = Inr (2, ex_state2)"
proof -
  have "admm_loop eigh_2x2 ex_R 1 2 1 1 ex_state1 = Inr (2, ex_state2)"
    by (simp add: ex_iteration2)
  then show ?thesis
    unfolding ex_run_loop
    by (subst admm_loop.simps) (simp add: ex_iteration1 ex_keep_going1 del: admm_loop.simps)
qed

section \<open>A larger iteration budget\<close>

lemma admm_loop_same_count:
  assumes "admm_loop la R K B rho i s = Inr (i, s')"
  shows "s' = s"
proof (cases "i < B")
  case True
  from admm_loop_progress[OF assms True] show ?thesis by simp
next
  case False
  then show ?thesis using assms by simp
qed

lemma admm_loop_extend:
  "admm_loop la R K B1 rho i s = Inr (it1, s1) \<Longrightarrow> B1 \<le> B2 \<Longrightarrow>
     admm_loop la R K B2 rho i s =
       (if i < it1 \<and> \<not> keep_going s1 then Inr (it1, s1) else admm_loop la R K B2 rho it1 s1)"
proof (induction la R K B1 rho i s rule: admm_loop.induct)
  case (1 la R K B1 rho i s)
  show ?case
  proof (cases "i < B1")
    case False
    then have "it1 = i" "s1 = s" using "1.prems"(1) by simp_all
    then show ?thesis by simp
  next
    case True
    then have lt2: "i < B2" using "1.prems"(2) by simp
    obtain sa where sa: "admm_iteration la R K rho s = Inr sa"
      using "1.prems"(1) True by (cases "admm_iteration la R K rho s") simp_all
    show ?thesis
    proof (cases "keep_going sa")
      case False
      then have e: "it1 = i + 1" "s1 = sa" using "1.prems"(1) True sa by simp_all
      show ?thesis
        by (subst admm_loop.simps) (simp add: lt2 sa False e del: admm_loop.simps)
    next
      case kg: True
      then have loop1: "admm_loop la R K B1 rho (i + 1) sa = Inr (it1, s1)"
        using "1.prems"(1) True sa by simp
      have ih: "admm_loop la R K B2 rho (i + 1) sa =
          (if i + 1 < it1 \<and> \<not> keep_going s1 then Inr (it1, s1) else admm_loop la R K B2 rho it1 s1)"
        using "1.IH"[OF True sa _ loop1 "1.prems"(2)] kg by simp
      have le: "i + 1 \<le> it1" using admm_loop_iterate[OF loop1] by simp
      have same: "(i + 1 < it1 \<and> \<not> keep_going s1) = (i < it1 \<and> \<not> keep_going s1)"
      proof (cases "it1 = i + 1")
        case True
        then have "s1 = sa" using admm_loop_same_count[of la R K B1 rho "i + 1" sa s1] loop1 by simp
        then show ?thesis using kg True by simp
      next
        case False
        then show ?thesis using le by auto
      qed
      have "admm_loop la R K B2 rho i s = admm_loop la R K B2 rho (i + 1) sa"
        by (subst admm_loop.simps) (simp add: lt2 sa kg del: admm_loop.simps)
      then show ?thesis unfolding ih same .
    qed
  qed
qed

text \<open>
  Claim C9, as amended. For a fixed input, \<open>K\<close> and \<open>rho\<close>, a run with a larger budget
  repeats the run with the smaller budget and goes on from there: when the smaller run
  stopped on the residual test, the larger run returns the same iteration count and the
  same state, hence the same \<open>Z\<close> and the same residuals; otherwise the larger run continues
  the loop from the final state of the smaller run. Nothing is said about the sizes of the
  residuals of the two final states.
\<close>

theorem larger_budget_extends:
  assumes "B1 \<le> B2" and "pecok_admm_run la R0 K B1 rho = Inr (it1, s1)"
  shows "\<exists>R. mdiv R0 (norm_fro R0) = Inr R \<and>
           pecok_admm_run la R0 K B2 rho =
             (if 0 < it1 \<and> \<not> keep_going s1 then Inr (it1, s1) else admm_loop la R K B2 rho it1 s1)"
proof -
  from pecok_admm_run_Inr[OF assms(2)] obtain R where R: "mdiv R0 (norm_fro R0) = Inr R"
    and loop: "admm_loop la R K B1 rho 0 (admm_init (length R0)) = Inr (it1, s1)" by blast
  have "pecok_admm_run la R0 K B2 rho = admm_loop la R K B2 rho 0 (admm_init (length R0))"
    unfolding pecok_admm_run_def Let_def R bind_f_Inr by (rule refl)
  then show ?thesis
    using admm_loop_extend[OF loop assms(1)] R by simp
qed

theorem larger_budget_extends_witness:
  "pecok_admm_run eigh_2x2 ex_R 1 1 1 = Inr (1, ex_state1) \<and> keep_going ex_state1 \<and>
   (\<exists>R. mdiv ex_R (norm_fro ex_R) = Inr R \<and>
      pecok_admm_run eigh_2x2 ex_R 1 2 1 = admm_loop eigh_2x2 R 1 2 1 1 ex_state1)"
proof -
  have le: "(1::int) \<le> 2" by simp
  show ?thesis
    using larger_budget_extends[OF le ex_run1] ex_run1 ex_keep_going1
    by (simp del: admm_loop.simps)
qed

text \<open>
  The residuals are not monotone in the budget. On the worked run the dual residual after
  one iteration is \<open>sqrt (1/9) = 1/3\<close>; with a budget of two iterations the solver stops with
  the dual residual \<open>sqrt (16/81) = 4/9\<close>.
\<close>

theorem larger_budget_residual_counterexample:
  "pecok_admm_run eigh_2x2 ex_R 1 1 1 = Inr (1, ex_state1) \<and>
   pecok_admm_run eigh_2x2 ex_R 1 2 1 = Inr (2, ex_state2) \<and>
   st_res_dual ex_state1 = Some (sqrt (1 / 9)) \<and>
   st_res_dual ex_state2 = Some (sqrt (16 / 81)) \<and>
   sqrt (1 / 9) < sqrt (16 / 81)"
  using ex_run1 ex_run2 by (simp add: ex_state1_def ex_state2_def)

section \<open>The returned matrix, the iteration scheme and the dual variables\<close>

lemma ex_pecok2: "pecok_admm eigh_2x2 ex_R 1 2 1 = Inr [[2 / 3, 1 / 3], [1 / 3, 2 / 3]]"
  unfolding pecok_admm_def ex_run2 by (simp add: ex_state2_def)

text \<open>
  Claim C1. For a symmetric \<open>n \<times> n\<close> input with \<open>n \<ge> 2\<close>, any \<open>K\<close>, and a solver that meets its
  contract on symmetric matrices, every matrix returned by \<open>pecok_admm\<close> is symmetric and
  positive semi-definite: its quadratic form is non-negative and it has no negative
  eigenvalue. A matrix is returned whenever the input is not zero, \<open>rho\<close> is not zero and
  the budget allows one iteration. The result type holds one matrix, nothing else.
\<close>

theorem pecok_admm_symmetric_psd:
  assumes "2 \<le> n" and "is_sym n R0" and "solver_ok la n"
  shows "(norm_fro R0 \<noteq> 0 \<and> rho \<noteq> 0 \<and> 1 \<le> n_iter_max \<longrightarrow>
            (\<exists>Z. pecok_admm la R0 K n_iter_max rho = Inr Z)) \<and>
         (\<forall>Z. pecok_admm la R0 K n_iter_max rho = Inr Z \<longrightarrow>
            is_sym n Z \<and> is_psd n Z \<and> (\<forall>lam x. is_eigenpair n Z lam x \<longrightarrow> 0 \<le> lam))"
proof (intro conjI allI impI)
  assume "norm_fro R0 \<noteq> 0 \<and> rho \<noteq> 0 \<and> 1 \<le> n_iter_max"
  then show "\<exists>Z. pecok_admm la R0 K n_iter_max rho = Inr Z"
    using pecok_admm_returns[OF assms] by blast
next
  fix Z assume Z: "pecok_admm la R0 K n_iter_max rho = Inr Z"
  from pecok_admm_Inr[OF Z] obtain it s' where run: "pecok_admm_run la R0 K n_iter_max rho = Inr (it, s')"
    and z: "st_Z s' = Z" by blast
  from pecok_admm_run_inv[OF assms run] z show psd: "is_psd n Z"
    by (auto simp: state_inv_def)
  then show "is_sym n Z" by (simp add: is_psd_def)
  fix lam x assume "is_eigenpair n Z lam x"
  then show "0 \<le> lam" by (rule psd_eigenvalue_nonneg[OF psd])
qed

theorem pecok_admm_symmetric_psd_witness:
  "pecok_admm eigh_2x2 ex_R 1 2 1 = Inr [[2 / 3, 1 / 3], [1 / 3, 2 / 3]] \<and>
   is_sym 2 [[2 / 3, 1 / 3], [1 / 3, 2 / 3]] \<and> is_psd 2 [[2 / 3, 1 / 3], [1 / 3, 2 / 3]]"
proof -
  have two: "(2::nat) \<le> 2" by simp
  show ?thesis
    using pecok_admm_symmetric_psd[OF two ex_R_sym eigh_2x2_solver_ok, of 1 2 1] ex_pecok2
    by simp
qed

text \<open>
  Claim C4. An iteration that completes has computed, from the previous \<open>Xbar\<close>, \<open>U\<close>, \<open>V\<close>,
  \<open>W\<close>: \<open>X\<close> by \<open>proj_lin_Hsymmetric\<close> on \<open>Xbar - U + R/rho\<close>, \<open>Y\<close> by \<open>proj_positive\<close> on
  \<open>Xbar - V\<close>, \<open>Z\<close> by \<open>proj_Snp_imp\<close> on \<open>Xbar - W\<close>, then the new \<open>Xbar = (X + Y + Z)/3\<close>, then
  the duals \<open>U + X - Xbar\<close>, \<open>V + Y - Xbar\<close>, \<open>W + Z - Xbar\<close> with the new values. The state
  at the end of a run is the loop body iterated from the initial state, always with the
  same matrix \<open>R\<close>, the input divided once by its Frobenius norm. The initial state has
  \<open>X = Y = Z\<close> the identity and \<open>U = V = W\<close> zero.
\<close>

theorem admm_iteration_scheme:
  "(admm_iteration la R K rho s = Inr s' \<longrightarrow>
      (\<exists>scaled. mdiv R rho = Inr scaled \<and>
         proj_lin_Hsymmetric (madd (msub (st_Xbar s) (st_U s)) scaled) K = Inr (st_X s') \<and>
         st_Y s' = proj_positive (msub (st_Xbar s) (st_V s)) 0 \<and>
         proj_Snp_imp la (msub (st_Xbar s) (st_W s)) = Inr (st_Z s') \<and>
         st_Xbar s' = mean3 (st_X s') (st_Y s') (st_Z s') \<and>
         st_U s' = msub (madd (st_U s) (st_X s')) (st_Xbar s') \<and>
         st_V s' = msub (madd (st_V s) (st_Y s')) (st_Xbar s') \<and>
         st_W s' = msub (madd (st_W s) (st_Z s')) (st_Xbar s'))) \<and>
   (pecok_admm_run la Rin K n_iter_max rho = Inr (it, sf) \<longrightarrow>
      (\<exists>Rn. mdiv Rin (norm_fro Rin) = Inr Rn \<and> Rn = map (map (\<lambda>a. a / norm_fro Rin)) Rin \<and> 0 \<le> it \<and>
         admm_iterate la Rn K rho (nat it) (admm_init (length Rin)) = Inr sf)) \<and>
   st_X (admm_init n) = np_identity n \<and> st_Y (admm_init n) = np_identity n \<and>
   st_Z (admm_init n) = np_identity n \<and> st_U (admm_init n) = np_zeros n n \<and>
   st_V (admm_init n) = np_zeros n n \<and> st_W (admm_init n) = np_zeros n n \<and>
   st_Xbar (admm_init n) = mean3 (np_identity n) (np_identity n) (np_identity n)"
proof (intro conjI impI)
  assume "admm_iteration la R K rho s = Inr s'"
  from admm_iteration_Inr[OF this]
  show "\<exists>scaled. mdiv R rho = Inr scaled \<and>
         proj_lin_Hsymmetric (madd (msub (st_Xbar s) (st_U s)) scaled) K = Inr (st_X s') \<and>
         st_Y s' = proj_positive (msub (st_Xbar s) (st_V s)) 0 \<and>
         proj_Snp_imp la (msub (st_Xbar s) (st_W s)) = Inr (st_Z s') \<and>
         st_Xbar s' = mean3 (st_X s') (st_Y s') (st_Z s') \<and>
         st_U s' = msub (madd (st_U s) (st_X s')) (st_Xbar s') \<and>
         st_V s' = msub (madd (st_V s) (st_Y s')) (st_Xbar s') \<and>
         st_W s' = msub (madd (st_W s) (st_Z s')) (st_Xbar s')"
    by blast
next
  assume run: "pecok_admm_run la Rin K n_iter_max rho = Inr (it, sf)"
  from pecok_admm_run_Inr[OF run] obtain Rn where Rn: "mdiv Rin (norm_fro Rin) = Inr Rn"
    and loop: "admm_loop la Rn K n_iter_max rho 0 (admm_init (length Rin)) = Inr (it, sf)" by blast
  from admm_loop_iterate[OF loop] mdiv_Inr[OF Rn] Rn
  show "\<exists>Rn. mdiv Rin (norm_fro Rin) = Inr Rn \<and> Rn = map (map (\<lambda>a. a / norm_fro Rin)) Rin \<and> 0 \<le> it \<and>
         admm_iterate la Rn K rho (nat it) (admm_init (length Rin)) = Inr sf"
    by simp
qed (simp_all add: admm_init_def)

theorem admm_iteration_scheme_witness:
  "admm_iteration eigh_2x2 ex_R 1 1 (admm_init 2) = Inr ex_state1 \<and>
   (\<exists>scaled. mdiv ex_R 1 = Inr scaled \<and>
      proj_lin_Hsymmetric (madd (msub (st_Xbar (admm_init 2)) (st_U (admm_init 2))) scaled) 1 = Inr (st_X ex_state1) \<and>
      st_Xbar ex_state1 = mean3 (st_X ex_state1) (st_Y ex_state1) (st_Z ex_state1)) \<and>
   pecok_admm_run eigh_2x2 ex_R 1 2 1 = Inr (2, ex_state2) \<and>
   (\<exists>Rn. mdiv ex_R (norm_fro ex_R) = Inr Rn \<and>
      admm_iterate eigh_2x2 Rn 1 1 (nat 2) (admm_init (length ex_R)) = Inr ex_state2)"
  using admm_iteration_scheme[where la = eigh_2x2 and R = ex_R and K = 1 and rho = 1
      and s = "admm_init 2" and s' = ex_state1 and Rin = ex_R and n_iter_max = 2 and it = 2
      and sf = ex_state2]
    ex_iteration1 ex_run2
  by blast



section \<open>The residual test and the empty budget\<close>

lemma length_msub: "length (msub A B) = min (length A) (length B)"
  by (simp add: msub_def)

lemma length_proj_positive: "length (proj_positive A t) = length A"
  by (simp add: proj_positive_def)

text \<open>
  Claim C5. After an iteration the dual residual is \<open>rho\<close> times the Frobenius norm of the
  change of \<open>Xbar\<close> and the primal residual is the joint norm of \<open>X - Xbar\<close>, \<open>Y - Xbar\<close>,
  \<open>Z - Xbar\<close>. The loop does not break exactly when the primal residual exceeds
  \<open>10\<^sup>-\<^sup>8\<close> times the largest of the norms of \<open>X\<close>, \<open>Y\<close>, \<open>Z\<close>, or the dual residual exceeds
  \<open>10\<^sup>-\<^sup>8 (sqrt n + |Y| + |Z|)\<close>, a bound without the norm of \<open>X\<close>; it then returns to the test
  of the budget, and otherwise it stops with the state just computed.
\<close>

theorem residual_test:
  assumes "admm_iteration la R K rho s = Inr s'"
    and "length (st_Xbar s) = n" and "length (st_V s) = n"
  shows "st_res_dual s' = Some (rho * norm_fro (msub (st_Xbar s') (st_Xbar s))) \<and>
         st_res_primal s' =
           Some (norm_stack (msub (st_X s') (st_Xbar s')) (msub (st_Y s') (st_Xbar s'))
                   (msub (st_Z s') (st_Xbar s'))) \<and>
         (keep_going s' \<longleftrightarrow>
            norm_stack (msub (st_X s') (st_Xbar s')) (msub (st_Y s') (st_Xbar s'))
                (msub (st_Z s') (st_Xbar s'))
              > 1 / 10 ^ 8 * Max {norm_fro (st_X s'), norm_fro (st_Y s'), norm_fro (st_Z s')} \<or>
            rho * norm_fro (msub (st_Xbar s') (st_Xbar s))
              > 1 / 10 ^ 8 * (sqrt (real n) + norm_fro (st_Y s') + norm_fro (st_Z s'))) \<and>
         (n_iter < n_iter_max \<longrightarrow>
            admm_loop la R K n_iter_max rho n_iter s =
              (if keep_going s' then admm_loop la R K n_iter_max rho (n_iter + 1) s'
               else Inr (n_iter + 1, s')))"
proof -
  from admm_iteration_Inr[OF assms(1)] have
    Y: "st_Y s' = proj_positive (msub (st_Xbar s) (st_V s)) 0"
    and rd: "st_res_dual s' = Some (rho * norm_fro (msub (st_Xbar s') (st_Xbar s)))"
    and rp: "st_res_primal s' = Some (norm_stack (msub (st_X s') (st_Xbar s')) (msub (st_Z s') (st_Xbar s'))
                                       (msub (st_Y s') (st_Xbar s')))"
    by blast+
  have rp': "st_res_primal s' = Some (norm_stack (msub (st_X s') (st_Xbar s')) (msub (st_Y s') (st_Xbar s'))
                                       (msub (st_Z s') (st_Xbar s')))"
    unfolding rp by (simp add: norm_stack_swap)
  have len: "length (st_Y s') = n"
    unfolding Y using assms(2,3) by (simp add: length_proj_positive length_msub)
  have kg: "keep_going s' \<longleftrightarrow>
            norm_stack (msub (st_X s') (st_Xbar s')) (msub (st_Y s') (st_Xbar s'))
                (msub (st_Z s') (st_Xbar s'))
              > 1 / 10 ^ 8 * Max {norm_fro (st_X s'), norm_fro (st_Y s'), norm_fro (st_Z s')} \<or>
            rho * norm_fro (msub (st_Xbar s') (st_Xbar s))
              > 1 / 10 ^ 8 * (sqrt (real n) + norm_fro (st_Y s') + norm_fro (st_Z s'))"
    unfolding keep_going_def rp' rd is_primal_high_def is_dual_high_def epsilon_def len by simp
  have loop: "admm_loop la R K n_iter_max rho n_iter s =
              (if keep_going s' then admm_loop la R K n_iter_max rho (n_iter + 1) s'
               else Inr (n_iter + 1, s'))" if "n_iter < n_iter_max"
    by (subst admm_loop.simps) (simp add: that assms(1) del: admm_loop.simps)
  show ?thesis using rd rp' kg loop by blast
qed

theorem residual_test_witness:
  "admm_iteration eigh_2x2 ex_R 1 1 (admm_init 2) = Inr ex_state1 \<and>
   st_res_dual ex_state1 = Some (1 * norm_fro (msub (st_Xbar ex_state1) (st_Xbar (admm_init 2)))) \<and>
   keep_going ex_state1 \<and>
   admm_loop eigh_2x2 ex_R 1 2 1 0 (admm_init 2) = admm_loop eigh_2x2 ex_R 1 2 1 (0 + 1) ex_state1"
proof -
  have l: "length (st_Xbar (admm_init 2)) = 2" "length (st_V (admm_init 2)) = 2"
    by (simp_all add: ex_init)
  have lt: "(0::int) < 2" by simp
  from residual_test[OF ex_iteration1 l, of 0 2] ex_iteration1 ex_keep_going1 lt
  show ?thesis by (simp del: admm_loop.simps)
qed

text \<open>
  Claim C6 at a budget of zero iterations. The loop body never runs, so \<open>res_primal\<close> and
  \<open>res_dual\<close> are unbound when the final \<^verbatim>\<open>print\<close> reads them: the call raises instead of
  returning \<open>Z\<close>.
\<close>

theorem pecok_admm_zero_budget: "pecok_admm eigh_2x2 ex_R 1 0 1 = Inl UnboundLocalError"
  unfolding pecok_admm_def ex_run0 by (simp add: admm_init_def)

lemma pecok_admm_no_iteration:
  assumes "n_iter_max \<le> 0" and "norm_fro R0 \<noteq> 0"
  shows "pecok_admm la R0 K n_iter_max rho = Inl UnboundLocalError"
  using assms by (simp add: pecok_admm_def pecok_admm_run_def admm_init_def Let_def)

lemma pecok_admm_run_count:
  assumes "pecok_admm_run la R0 K n_iter_max rho = Inr (it, s')"
  shows "0 \<le> it \<and> it \<le> max 0 n_iter_max"
proof -
  from pecok_admm_run_Inr[OF assms] obtain R where
    "admm_loop la R K n_iter_max rho 0 (admm_init (length R0)) = Inr (it, s')" by blast
  from admm_loop_iterate[OF this] show ?thesis by auto
qed

end
